theory Spec2Isabelle
  imports Main "HOL-Library.Word" "HOL-Library.Code_Target_Numeral"
begin

unbundle bit_operations_syntax

section \<open>Data model of \<open>hw/ip/bus_sniffer/dpi/bus_sniffer_dpi.cc\<close>\<close>

text \<open>
  \<open>uint32_t\<close> and \<open>unsigned\<close> are 32-bit words (arithmetic wraps); a C \<open>int\<close> is
  the 32-bit word of its two's complement representation (\<open>sint\<close> reads it), so the
  cast \<open>(unsigned)\<close> of an \<open>int\<close> leaves the word as it is.
  \<open>struct Frame { uint32_t w[4]; }\<close> is a record of its four words;
  \<open>w_0\<close> is \<open>w[0]\<close>, the most significant word of the 128-bit frame.
\<close>

type_synonym u32 = "32 word"
type_synonym s32 = "32 word"

record Frame =
  w_0 :: u32
  w_1 :: u32
  w_2 :: u32
  w_3 :: u32

text \<open>The nine reference parameters that \<open>decode_to_fields\<close> assigns.\<close>

record fields =
  src :: u32
  req_ts :: u32
  resp_ts :: u32
  addr :: u32
  data :: u32
  be :: u32
  we :: u32
  valid :: u32
  gnt :: u32

subsection \<open>Ring indices\<close>

definition RB_SIZE :: u32 where
  "RB_SIZE = push_bit 16 1"

definition rb_used :: "u32 \<Rightarrow> u32 \<Rightarrow> u32" where
  "rb_used h t = (h - t) AND (RB_SIZE - 1)"

definition rb_free :: "u32 \<Rightarrow> u32 \<Rightarrow> u32" where
  "rb_free h t = (RB_SIZE - 1) - rb_used h t"

subsection \<open>Field decoder\<close>

text \<open>\<open>x >> n\<close> is \<open>drop_bit n x\<close>, \<open>x << n\<close> is \<open>push_bit n x\<close> (both on 32 bits).\<close>

definition decode_to_fields :: "Frame \<Rightarrow> fields" where
  "decode_to_fields fr =
     (let w0 = w_0 fr; w1 = w_1 fr; w2 = w_2 fr; w3 = w_3 fr in
      \<lparr> src = drop_bit 28 w0 AND 0xF,
        req_ts = push_bit 4 (w0 AND 0x0FFFFFFF) OR drop_bit 28 w1,
        resp_ts = drop_bit 12 w1 AND 0xFFFF,
        addr = push_bit 20 (w1 AND 0xFFF) OR drop_bit 12 w2,
        data = push_bit 20 (w2 AND 0xFFF) OR drop_bit 12 w3,
        be = drop_bit 8 w3 AND 0xF,
        we = drop_bit 7 w3 AND 0x1,
        valid = drop_bit 6 w3 AND 0x1,
        gnt = drop_bit 5 w3 AND 0x1 \<rparr>)"

text \<open>
  The inverse direction is not in the source. \<open>encode_fields\<close> follows the bit layout
  table of the specification (section 3): each field is placed back at the bit positions
  the table gives for it, and nothing else is set.
\<close>

definition encode_fields :: "fields \<Rightarrow> Frame" where
  "encode_fields d =
     \<lparr> w_0 = push_bit 28 (src d) OR drop_bit 4 (req_ts d),
       w_1 = push_bit 28 (req_ts d) OR push_bit 12 (resp_ts d) OR drop_bit 20 (addr d),
       w_2 = push_bit 12 (addr d) OR drop_bit 20 (data d),
       w_3 = push_bit 12 (data d) OR push_bit 8 (be d) OR push_bit 7 (we d)
               OR push_bit 6 (valid d) OR push_bit 5 (gnt d) \<rparr>"

subsection \<open>Output formatting\<close>

text \<open>
  The \<open>printf\<close> conversions the writer uses: \<open>%u\<close> (decimal), \<open>%X\<close> (upper-case
  hexadecimal) and \<open>%08X\<close>, \<open>%04X\<close> (the same, padded on the left with zeros up to the
  width). A stream is the sequence of characters written to it.
\<close>

definition digit_char :: "nat \<Rightarrow> char" where
  "digit_char d = ''0123456789ABCDEF'' ! d"

fun dec_digits :: "nat \<Rightarrow> string" where
  "dec_digits n =
     (if n < 10 then [digit_char n] else dec_digits (n div 10) @ [digit_char (n mod 10)])"

fun hex_digits :: "nat \<Rightarrow> string" where
  "hex_digits n =
     (if n < 16 then [digit_char n] else hex_digits (n div 16) @ [digit_char (n mod 16)])"

declare dec_digits.simps [simp del]
declare hex_digits.simps [simp del]

definition fmt_u :: "u32 \<Rightarrow> string" where
  "fmt_u x = dec_digits (unat x)"

definition fmt_X :: "u32 \<Rightarrow> string" where
  "fmt_X x = hex_digits (unat x)"

definition fmt_0X :: "nat \<Rightarrow> u32 \<Rightarrow> string" where
  "fmt_0X width x = replicate (width - length (fmt_X x)) CHR ''0'' @ fmt_X x"

definition newline :: char where
  "newline = CHR 0x0A"

definition csv_header :: string where
  "csv_header = ''src,req_ts,resp_ts,address,data,be,we,valid,gnt'' @ [newline]"

definition csv_line :: "fields \<Rightarrow> string" where
  "csv_line d =
     fmt_u (src d) @ '','' @ fmt_u (req_ts d) @ '','' @ fmt_u (resp_ts d) @ '',0x'' @
     fmt_0X 8 (addr d) @ '',0x'' @ fmt_0X 8 (data d) @ '','' @ fmt_X (be d) @ '','' @
     fmt_u (we d) @ '','' @ fmt_u (valid d) @ '','' @ fmt_u (gnt d) @ [newline]"

definition console_line :: "fields \<Rightarrow> string" where
  "console_line d =
     ''src='' @ fmt_u (src d) @ '' ts='' @ fmt_0X 8 (req_ts d) @ ''/'' @
     fmt_0X 4 (resp_ts d) @ '' addr='' @ fmt_0X 8 (addr d) @ '' data='' @
     fmt_0X 8 (data d) @ '' be='' @ fmt_X (be d) @ '' we='' @ fmt_u (we d) @
     '' v'' @ fmt_u (valid d) @ '' g'' @ fmt_u (gnt d) @ [newline]"

text \<open>
  \<open>fwrite(&fr, sizeof(Frame), 1, fbin)\<close> writes the memory image of the frame: the four
  words in index order, each in the byte order of the host.
\<close>

datatype endian = Little | Big

definition word_bytes :: "endian \<Rightarrow> u32 \<Rightarrow> string" where
  "word_bytes en x =
     (let le = [char_of (unat x), char_of (unat (drop_bit 8 x)),
                char_of (unat (drop_bit 16 x)), char_of (unat (drop_bit 24 x))]
      in case en of Little \<Rightarrow> le | Big \<Rightarrow> rev le)"

definition frame_bytes :: "endian \<Rightarrow> Frame \<Rightarrow> string" where
  "frame_bytes en fr =
     word_bytes en (w_0 fr) @ word_bytes en (w_1 fr) @ word_bytes en (w_2 fr) @
     word_bytes en (w_3 fr)"

definition line_count :: "string \<Rightarrow> nat" where
  "line_count txt = length (filter (\<lambda>c. c = newline) txt)"

subsection \<open>Process state and environment\<close>

text \<open>
  What the process asks of its environment when a session starts: the result of
  \<open>malloc\<close> (\<open>None\<close> is a null pointer; the storage handed out has arbitrary content),
  whether \<open>fopen\<close> of a path succeeds, \<open>getenv\<close>, the C library's \<open>atoi\<close>, whether the
  writer thread can be created, and the byte order of the host.
\<close>

record env =
  malloc_ring :: "(u32 \<Rightarrow> Frame) option"
  fopen_ok :: "string \<Rightarrow> bool"
  getenv :: "string \<Rightarrow> string option"
  atoi :: "string \<Rightarrow> s32"
  thread_ok :: bool
  endianness :: endian

text \<open>
  The detached writer thread is a small state machine: \<open>Top\<close> is the test of the outer
  \<open>while (running.load())\<close>, \<open>Drain t h\<close> is the test of the inner \<open>while (t != h)\<close>
  with the thread's local \<open>t\<close> and \<open>h\<close>, \<open>Exited\<close> is the end of the thread.
\<close>

datatype writer = Top | Drain u32 u32 | Exited

text \<open>
  The globals of the translation unit, and the parts of the outside world the code acts
  on. \<open>ring = None\<close> is the null pointer; slots are addressed by a 32-bit index. An open
  stream (\<open>fbin\<close>, \<open>fcsv\<close>) is \<open>Some\<close> of all characters written to it since
  \<open>fopen\<close>; \<open>disk\<close> maps a path to the content of the file as of the last \<open>fflush\<close> or
  \<open>fclose\<close> (the C library may write buffered characters earlier); \<open>stderr_out\<close> is
  what was printed on the console; \<open>writers\<close> are the threads created so far.
\<close>

record state =
  ring :: "(u32 \<Rightarrow> Frame) option"
  head :: u32
  tail :: u32
  running :: bool
  fbin :: "string option"
  fcsv :: "string option"
  print_enable :: bool
  print_every :: u32
  print_count :: u32
  disk :: "string \<Rightarrow> string option"
  stderr_out :: string
  writers :: "writer list"

definition init_state :: state where
  "init_state =
     \<lparr> ring = None, head = 0, tail = 0, running = False, fbin = None, fcsv = None,
       print_enable = False, print_every = 1, print_count = 0,
       disk = (\<lambda>p. None), stderr_out = [], writers = [] \<rparr>"

text \<open>
  \<open>Abort\<close>: the process ends in \<open>abort()\<close>. \<open>UB\<close>: the C++ code has no defined
  behaviour (null or out-of-range access, use of a closed stream, division by zero).
\<close>

datatype error = Abort | UB

definition bin_path :: string where
  "bin_path = ''sniffer_frames.bin''"

definition csv_path :: string where
  "csv_path = ''sniffer_frames.csv''"

subsection \<open>Session start\<close>

text \<open>
  The two environment knobs. \<open>if (p && *p && p[0] != '0') print_enable = true;\<close>
  sets the flag or leaves the old value; \<open>if (pe) { unsigned v = (unsigned)atoi(pe);
  if (v) print_every = v; }\<close> stores a non-zero period or leaves the old value.
\<close>

definition read_print_enable :: "env \<Rightarrow> bool \<Rightarrow> bool" where
  "read_print_enable e old =
     (case getenv e ''SNIFFER_PRINT'' of
        Some (c # cs) \<Rightarrow> (if c \<noteq> CHR ''0'' then True else old)
      | _ \<Rightarrow> old)"

definition read_print_every :: "env \<Rightarrow> u32 \<Rightarrow> u32" where
  "read_print_every e old =
     (case getenv e ''SNIFFER_PRINT_EVERY'' of
        Some pe \<Rightarrow> (if atoi e pe \<noteq> 0 then atoi e pe else old)
      | None \<Rightarrow> old)"

text \<open>
  \<open>fopen\<close> with mode \<open>w\<close> creates the file or truncates it; the CSV header goes to
  the stream. The thread is created after \<open>running\<close> is set; a failure to create it
  ends the process like the explicit \<open>abort()\<close> calls do.
\<close>

definition start_consumer :: "env \<Rightarrow> state \<Rightarrow> error + state" where
  "start_consumer e s =
     (if running s then Inr s
      else (case malloc_ring e of
        None \<Rightarrow> Inl Abort
      | Some m \<Rightarrow>
          if \<not> fopen_ok e bin_path then Inl Abort
          else if \<not> fopen_ok e csv_path then Inl Abort
          else if \<not> thread_ok e then Inl Abort
          else Inr (s\<lparr> ring := Some m,
                       fbin := Some [],
                       fcsv := Some csv_header,
                       disk := (disk s)(bin_path := Some [], csv_path := Some []),
                       print_enable := read_print_enable e (print_enable s),
                       print_every := read_print_every e (print_every s),
                       running := True,
                       writers := writers s @ [Top] \<rparr>)))"

subsection \<open>Producer entry point\<close>

text \<open>The result is the returned \<open>int\<close> and the new state.\<close>

definition sniffer_dpi_push ::
  "env \<Rightarrow> s32 \<Rightarrow> s32 \<Rightarrow> u32 \<Rightarrow> u32 \<Rightarrow> u32 \<Rightarrow> u32 \<Rightarrow> state \<Rightarrow> error + (s32 \<times> state)" where
  "sniffer_dpi_push e stream_id nwords w0 w1 w2 w3 s =
     (if nwords \<noteq> 4 then Inr (0, s)
      else (case (case ring s of None \<Rightarrow> start_consumer e s | Some r \<Rightarrow> Inr s) of
        Inl err \<Rightarrow> Inl err
      | Inr s1 \<Rightarrow>
          (let h = head s1; t = tail s1 in
           if rb_free h t = 0 then Inr (0, s1)
           else (case ring s1 of
             None \<Rightarrow> Inl UB
           | Some r \<Rightarrow>
               if \<not> h < RB_SIZE then Inl UB
               else Inr (1, s1\<lparr> ring := Some (r(h := \<lparr> w_0 = w0, w_1 = w1, w_2 = w2, w_3 = w3 \<rparr>)),
                                head := (h + 1) AND (RB_SIZE - 1) \<rparr>)))))"

subsection \<open>Close\<close>

text \<open>
  \<open>fflush\<close> and \<open>fclose\<close> bring the file on disk up to what the stream holds; on a
  null handle the guarded block is skipped.
\<close>

definition flush_to ::
  "string \<Rightarrow> string option \<Rightarrow> (string \<Rightarrow> string option) \<Rightarrow> (string \<Rightarrow> string option)" where
  "flush_to path stream d = (case stream of None \<Rightarrow> d | Some c \<Rightarrow> d(path := Some c))"

text \<open>
  Each of the three guarded blocks \<open>if (x) { ...; x = nullptr; }\<close> leaves \<open>x\<close> null
  whether or not it was null before. The 5 ms sleep does not change the state of the
  calling thread.
\<close>

definition sniffer_dpi_close :: "state \<Rightarrow> state" where
  "sniffer_dpi_close s =
     s\<lparr> running := False,
        disk := flush_to csv_path (fcsv s) (flush_to bin_path (fbin s) (disk s)),
        fbin := None,
        fcsv := None,
        ring := None \<rparr>"

subsection \<open>Writer thread\<close>

text \<open>The body of the inner loop after \<open>fr = ring[t]\<close>: binary record, CSV record, console.\<close>

definition emit_frame :: "env \<Rightarrow> Frame \<Rightarrow> state \<Rightarrow> error + state" where
  "emit_frame e fr s =
     (case fbin s of
        None \<Rightarrow> Inl UB
      | Some b \<Rightarrow>
          (case fcsv s of
             None \<Rightarrow> Inl UB
           | Some c \<Rightarrow>
               let d = decode_to_fields fr;
                   s1 = s\<lparr> fbin := Some (b @ frame_bytes (endianness e) fr),
                           fcsv := Some (c @ csv_line d) \<rparr>
               in if print_enable s1 then
                    if print_every s1 = 0 then Inl UB
                    else
                      let s2 = s1\<lparr> print_count := print_count s1 + 1 \<rparr>
                      in if print_count s2 mod print_every s2 = 0
                         then Inr (s2\<lparr> stderr_out := stderr_out s2 @ console_line d \<rparr>)
                         else Inr s2
                  else Inr s1))"

text \<open>
  \<open>fflush(fbin); fflush(fcsv);\<close> at the end of a pass. \<open>fflush\<close> of a null stream
  flushes every open output stream, so in each case the open ones of the two are flushed.
\<close>

definition fflush_all :: "state \<Rightarrow> state" where
  "fflush_all s =
     s\<lparr> disk := flush_to csv_path (fcsv s) (flush_to bin_path (fbin s) (disk s)) \<rparr>"

text \<open>
  One step of a writer thread. At \<open>Top\<close> it reads \<open>running\<close>, \<open>tail\<close> and \<open>head\<close>; at
  \<open>Drain t h\<close> it either handles the slot \<open>ring[t]\<close> and advances its local \<open>t\<close>, or
  (when \<open>t = h\<close>) publishes \<open>tail\<close>, flushes and goes back to sleep.
\<close>

definition writer_step :: "env \<Rightarrow> writer \<Rightarrow> state \<Rightarrow> error + (writer \<times> state)" where
  "writer_step e w s =
     (case w of
        Top \<Rightarrow> if running s then Inr (Drain (tail s) (head s), s) else Inr (Exited, s)
      | Drain t h \<Rightarrow>
          if t \<noteq> h then
            (case ring s of
               None \<Rightarrow> Inl UB
             | Some r \<Rightarrow>
                 if \<not> t < RB_SIZE then Inl UB
                 else (case emit_frame e (r t) s of
                         Inl err \<Rightarrow> Inl err
                       | Inr s' \<Rightarrow> Inr (Drain ((t + 1) AND (RB_SIZE - 1)) h, s')))
          else Inr (Top, fflush_all (s\<lparr> tail := t \<rparr>))
      | Exited \<Rightarrow> Inr (Exited, s))"

subsection \<open>Interleavings of the producer and the writer\<close>

text \<open>
  A run of one session is a sequence of events: a call of \<open>sniffer_dpi_push\<close> by the
  simulator, or one step of writer thread \<open>i\<close>. The atomic loads and stores are taken
  in one global order (the acquire and release orderings of the code are not modelled
  beyond that). A push is one event: the only shared locations it writes are the slot at
  \<open>head\<close> and then \<open>head\<close>, and the \<open>tail\<close> it has read can only be older than the
  current one. \<open>sniffer_dpi_close\<close> is not an event of these runs: what the writer
  does while close sleeps and after it has released the ring depends on time.

  Beside the state, a run keeps a log that is not part of the program: the frames of the
  calls that returned 1, and the frames the writer has read from the ring, both in order
  of occurrence; the number of frames the writer had read when it last ended a pass
  (stored \<open>tail\<close> and flushed both streams), and the number of passes it has ended.
\<close>

datatype event = Push s32 s32 u32 u32 u32 u32 | Writer nat

record log =
  accepted :: "Frame list"
  drained :: "Frame list"
  published :: nat
  passes :: nat

definition empty_log :: log where
  "empty_log = \<lparr> accepted = [], drained = [], published = 0, passes = 0 \<rparr>"

definition reads_slot :: "writer \<Rightarrow> state \<Rightarrow> Frame list" where
  "reads_slot w s =
     (case w of
        Drain t h \<Rightarrow> (if t \<noteq> h then (case ring s of Some r \<Rightarrow> [r t] | None \<Rightarrow> []) else [])
      | _ \<Rightarrow> [])"

definition ends_pass :: "writer \<Rightarrow> bool" where
  "ends_pass w = (case w of Drain t h \<Rightarrow> t = h | _ \<Rightarrow> False)"

definition log_step :: "writer \<Rightarrow> state \<Rightarrow> log \<Rightarrow> log" where
  "log_step w s l =
     (if ends_pass w
      then l\<lparr> published := length (drained l), passes := passes l + 1 \<rparr>
      else l\<lparr> drained := drained l @ reads_slot w s \<rparr>)"

fun exec :: "env \<Rightarrow> event \<Rightarrow> state \<times> log \<Rightarrow> error + state \<times> log" where
  "exec e (Push stream_id nwords w0 w1 w2 w3) (s, l) =
     (case sniffer_dpi_push e stream_id nwords w0 w1 w2 w3 s of
        Inl err \<Rightarrow> Inl err
      | Inr (r, s') \<Rightarrow>
          Inr (s', if r = 1
                   then l\<lparr> accepted := accepted l @ [\<lparr> w_0 = w0, w_1 = w1, w_2 = w2, w_3 = w3 \<rparr>] \<rparr>
                   else l))"
| "exec e (Writer i) (s, l) =
     (if i < length (writers s) then
        (case writer_step e (writers s ! i) s of
           Inl err \<Rightarrow> Inl err
         | Inr (w', s') \<Rightarrow>
             Inr (s'\<lparr> writers := (writers s')[i := w'] \<rparr>, log_step (writers s ! i) s l))
      else Inr (s, l))"

fun run :: "env \<Rightarrow> event list \<Rightarrow> state \<times> log \<Rightarrow> error + state \<times> log" where
  "run e [] c = Inr c"
| "run e (ev # evs) c = (case exec e ev c of Inl err \<Rightarrow> Inl err | Inr c' \<Rightarrow> run e evs c')"


subsection \<open>What the sinks should hold\<close>

text \<open>
  The content of the three sinks as functions of the list of frames handled so far: one
  16-byte record per frame, the header and one CSV record per frame, and the console
  lines. \<open>console_text p c\<close> follows the counter of the code: \<open>c\<close> is the 32-bit
  \<open>print_count\<close> before the frame, and a line is printed when the incremented counter
  is divisible by the period \<open>p\<close>.
\<close>

definition bin_image :: "endian \<Rightarrow> Frame list \<Rightarrow> string" where
  "bin_image en fs = concat (map (frame_bytes en) fs)"

definition csv_text :: "Frame list \<Rightarrow> string" where
  "csv_text fs = csv_header @ concat (map (csv_line \<circ> decode_to_fields) fs)"

fun console_text :: "u32 \<Rightarrow> u32 \<Rightarrow> Frame list \<Rightarrow> string" where
  "console_text p c [] = []"
| "console_text p c (f # fs) =
     (if (c + 1) mod p = 0 then console_line (decode_to_fields f) else []) @
     console_text p (c + 1) fs"

text \<open>The frames whose position in the list, counted from 1, is a multiple of \<open>P\<close>.\<close>

definition every_nth :: "nat \<Rightarrow> 'a list \<Rightarrow> 'a list" where
  "every_nth P fs = map (\<lambda>i. fs ! (i - 1)) (filter (\<lambda>i. P dvd i) [1 ..< length fs + 1])"

subsection \<open>Invariant of a running session\<close>

text \<open>The host grants everything a session start asks for.\<close>

definition host_ok :: "env \<Rightarrow> bool" where
  "host_ok e \<longleftrightarrow>
     malloc_ring e \<noteq> None \<and> fopen_ok e bin_path \<and> fopen_ok e csv_path \<and> thread_ok e"

text \<open>
  With \<open>A\<close> frames accepted and \<open>D\<close> frames read by the writer so far, \<open>head\<close> is
  \<open>A\<close> modulo the ring size, the writer stands at \<open>D\<close>, the published \<open>tail\<close> is
  some earlier writer position \<open>P\<close>, and the \<open>h\<close> the writer loaded is a position
  \<open>Hs\<close> between \<open>D\<close> and \<open>A\<close>. The frames read are the first \<open>D\<close> accepted
  frames, slots \<open>D .. A - 1\<close> of the ring hold the accepted frames not yet read, and
  the streams hold what the frames read produce. \<open>P\<close> is the number of frames read
  at the end of the last pass; the files on disk hold what the first \<open>P\<close> frames
  produce, and nothing (not even the header) before the first pass has ended.
\<close>

definition session_inv :: "env \<Rightarrow> state \<times> log \<Rightarrow> bool" where
  "session_inv e c \<longleftrightarrow>
     (\<exists>r w P Hs.
        ring (fst c) = Some r \<and> writers (fst c) = [w] \<and> running (fst c) \<and>
        P \<le> length (drained (snd c)) \<and> length (drained (snd c)) \<le> Hs \<and>
        Hs \<le> length (accepted (snd c)) \<and> length (accepted (snd c)) - P \<le> 65535 \<and>
        unat (tail (fst c)) = P mod 65536 \<and>
        unat (head (fst c)) = length (accepted (snd c)) mod 65536 \<and>
        (case w of
           Top \<Rightarrow> P = length (drained (snd c))
         | Drain t h \<Rightarrow>
             unat t = length (drained (snd c)) mod 65536 \<and> unat h = Hs mod 65536
         | Exited \<Rightarrow> False) \<and>
        drained (snd c) = take (length (drained (snd c))) (accepted (snd c)) \<and>
        (\<forall>i. length (drained (snd c)) \<le> i \<and> i < length (accepted (snd c)) \<longrightarrow>
             r (of_nat (i mod 65536)) = accepted (snd c) ! i) \<and>
        fbin (fst c) = Some (bin_image (endianness e) (drained (snd c))) \<and>
        fcsv (fst c) = Some (csv_text (drained (snd c))) \<and>
        print_enable (fst c) = read_print_enable e False \<and>
        print_every (fst c) = read_print_every e 1 \<and>
        print_count (fst c) =
          (if print_enable (fst c) then of_nat (length (drained (snd c))) else 0) \<and>
        stderr_out (fst c) =
          (if print_enable (fst c)
           then console_text (print_every (fst c)) 0 (drained (snd c)) else []) \<and>
        published (snd c) = P \<and>
        (passes (snd c) = 0 \<longrightarrow> P = 0) \<and>
        disk (fst c) bin_path =
          Some (bin_image (endianness e) (take P (drained (snd c)))) \<and>
        disk (fst c) csv_path =
          Some (if passes (snd c) = 0 then [] else csv_text (take P (drained (snd c)))))"

subsection \<open>A concrete host\<close>

text \<open>
  A host on which every request succeeds and no environment variable is set; the storage
  that \<open>malloc\<close> hands out happens to hold zeros.
\<close>

definition blank_ring :: "u32 \<Rightarrow> Frame" where
  "blank_ring = (\<lambda>i. \<lparr> w_0 = 0, w_1 = 0, w_2 = 0, w_3 = 0 \<rparr>)"

definition demo_env :: env where
  "demo_env =
     \<lparr> malloc_ring = Some blank_ring, fopen_ok = (\<lambda>p. True), getenv = (\<lambda>v. None),
       atoi = (\<lambda>str. 0), thread_ok = True, endianness = Little \<rparr>"

text \<open>The same host with the console echo switched on and a sampling period of 3.\<close>

definition print3_env :: env where
  "print3_env =
     \<lparr> malloc_ring = Some blank_ring, fopen_ok = (\<lambda>p. True),
       getenv = (\<lambda>v. if v = ''SNIFFER_PRINT'' then Some ''1''
                      else if v = ''SNIFFER_PRINT_EVERY'' then Some ''3'' else None),
       atoi = (\<lambda>str. if str = ''3'' then 3 else 0), thread_ok = True, endianness = Little \<rparr>"

text \<open>
  One frame pushed and then handled by the writer: load the indices, handle the frame,
  publish \<open>tail\<close>.
\<close>

definition push_drain_round :: "event list" where
  "push_drain_round = [Push 0 4 0 0 0 0, Writer 0, Writer 0, Writer 0]"

text \<open>
  A measure of the work the writer has left until it has read the first \<open>K\<close> accepted
  frames: three steps at most for every frame not yet read, and the position of the
  writer within its pass.
\<close>

definition pending :: "nat \<Rightarrow> state \<times> log \<Rightarrow> nat" where
  "pending K c =
     3 * (K - length (drained (snd c))) +
     (case writers (fst c) of
        [Top] \<Rightarrow> 1
      | [Drain t h] \<Rightarrow> (if t = h then 2 else 0)
      | _ \<Rightarrow> 0)"

section \<open>Field decoder: properties\<close>

lemma decode_masks:
  "(0xF :: u32) = mask 4" "(0x0FFFFFFF :: u32) = mask 28" "(0xFFFF :: u32) = mask 16"
  "(0xFFF :: u32) = mask 12" "(0xFFFFFFE0 :: u32) = NOT (mask 5)"
  by (simp_all add: mask_eq_exp_minus_1)

lemma bit_one_u32: "bit (1 :: u32) n \<longleftrightarrow> n = 0"
  by (auto simp add: bit_1_iff)

lemmas bit_unfold =
  bit_or_iff bit_and_iff bit_push_bit_iff bit_drop_bit_eq bit_not_iff bit_mask_iff
  bit_one_u32 comp_def

lemma reassemble_w0:
  "push_bit 28 (drop_bit 28 w0 AND mask 4) OR
   drop_bit 4 (push_bit 4 (w0 AND mask 28) OR drop_bit 28 w1) = (w0 :: u32)"
  apply (rule bit_word_eqI)
  apply (simp only: bit_unfold)
  subgoal for n
    by (cases "n < 28"; auto dest: bit_imp_le_length)
  done

lemma reassemble_w1:
  "push_bit 28 (push_bit 4 (w0 AND mask 28) OR drop_bit 28 w1) OR
   push_bit 12 (drop_bit 12 w1 AND mask 16) OR
   drop_bit 20 (push_bit 20 (w1 AND mask 12) OR drop_bit 12 w2) = (w1 :: u32)"
  apply (rule bit_word_eqI)
  apply (simp only: bit_unfold)
  subgoal for n
    by (cases "n < 12"; cases "n < 28"; auto dest: bit_imp_le_length)
  done

lemma reassemble_w2:
  "push_bit 12 (push_bit 20 (w1 AND mask 12) OR drop_bit 12 w2) OR
   drop_bit 20 (push_bit 20 (w2 AND mask 12) OR drop_bit 12 w3) = (w2 :: u32)"
  apply (rule bit_word_eqI)
  apply (simp only: bit_unfold)
  subgoal for n
    by (cases "n < 12"; auto dest: bit_imp_le_length)
  done

lemma reassemble_w3:
  "push_bit 12 (push_bit 20 (w2 AND mask 12) OR drop_bit 12 w3) OR
   push_bit 8 (drop_bit 8 w3 AND mask 4) OR push_bit 7 (drop_bit 7 w3 AND 1) OR
   push_bit 6 (drop_bit 6 w3 AND 1) OR push_bit 5 (drop_bit 5 w3 AND 1)
   = (w3 AND NOT (mask 5) :: u32)"
  apply (rule bit_word_eqI)
  apply (simp only: bit_unfold)
  subgoal for n
    by (cases "n < 5"; cases "n = 5"; cases "n = 6"; cases "n = 7"; cases "n < 12";
        auto dest: bit_imp_le_length)
  done

lemma and_one_cases: "(x AND 1 :: u32) = 0 \<or> (x AND 1 :: u32) = 1"
  by (cases "odd x") (simp_all add: and_one_eq mod_2_eq_odd)

lemma and_mask4_less: "(x AND mask 4 :: u32) < 16"
  using and_mask_less' [of 4 x] by simp

lemma and_mask16_less: "(x AND mask 16 :: u32) < 65536"
  using and_mask_less' [of 16 x] by simp

text \<open>
  C3 (as amended). Decoding is a total function of the frame, and placing the nine
  decoded fields back at their bit positions gives the original frame with the five low
  bits of the last word cleared: bits 4..0 of \<open>w[3]\<close> belong to no field. Words
  \<open>w[0]\<close>, \<open>w[1]\<close>, \<open>w[2]\<close> and bits 31..5 of \<open>w[3]\<close> are reproduced exactly.
\<close>

theorem decode_encode_roundtrip:
  "encode_fields (decode_to_fields fr) = fr\<lparr> w_3 := w_3 fr AND 0xFFFFFFE0 \<rparr>"
  unfolding encode_fields_def decode_to_fields_def Let_def decode_masks
  apply (rule Frame.equality)
      apply (simp_all only: Frame.simps fields.simps reassemble_w0 reassemble_w1
        reassemble_w2 reassemble_w3)
      apply simp_all
  done

text \<open>
  C3 (as stated) fails: a frame whose last word is 1 decodes to nine zero fields, and
  re-encoding them gives the zero frame.
\<close>

theorem roundtrip_counterexample:
  "encode_fields (decode_to_fields \<lparr> w_0 = 0, w_1 = 0, w_2 = 0, w_3 = 1 \<rparr>)
     \<noteq> \<lparr> w_0 = 0, w_1 = 0, w_2 = 0, w_3 = 1 \<rparr>"
  by (simp add: encode_fields_def decode_to_fields_def)

text \<open>
  C4 (as amended). The frame \<open>0xA0000000, 0, 0, 0xE0\<close> decodes to source id \<open>0xA\<close>,
  write flag 1, valid flag 1 and grant flag 1: \<open>0xE0\<close> has bits 7, 6 and 5 set.
\<close>

theorem decode_scenario:
  "src (decode_to_fields \<lparr> w_0 = 0xA0000000, w_1 = 0, w_2 = 0, w_3 = 0xE0 \<rparr>) = 0xA \<and>
   we (decode_to_fields \<lparr> w_0 = 0xA0000000, w_1 = 0, w_2 = 0, w_3 = 0xE0 \<rparr>) = 1 \<and>
   valid (decode_to_fields \<lparr> w_0 = 0xA0000000, w_1 = 0, w_2 = 0, w_3 = 0xE0 \<rparr>) = 1 \<and>
   gnt (decode_to_fields \<lparr> w_0 = 0xA0000000, w_1 = 0, w_2 = 0, w_3 = 0xE0 \<rparr>) = 1"
  by (simp add: decode_to_fields_def)

text \<open>C4 (as stated) fails: the grant flag of that frame is not 0.\<close>

theorem decode_scenario_counterexample:
  "gnt (decode_to_fields \<lparr> w_0 = 0xA0000000, w_1 = 0, w_2 = 0, w_3 = 0xE0 \<rparr>) \<noteq> 0"
  by (simp add: decode_to_fields_def)

text \<open>
  C10. Every decoded field stays within its declared width: source id and byte-enable
  below 16, response timestamp below 65536, and each flag 0 or 1.
\<close>

theorem decode_field_widths:
  "src (decode_to_fields fr) < 16 \<and>
   resp_ts (decode_to_fields fr) < 65536 \<and>
   be (decode_to_fields fr) < 16 \<and>
   (we (decode_to_fields fr) = 0 \<or> we (decode_to_fields fr) = 1) \<and>
   (valid (decode_to_fields fr) = 0 \<or> valid (decode_to_fields fr) = 1) \<and>
   (gnt (decode_to_fields fr) = 0 \<or> gnt (decode_to_fields fr) = 1)"
  unfolding decode_to_fields_def Let_def decode_masks
  by (simp only: fields.simps and_mask4_less and_mask16_less and_one_cases simp_thms)

section \<open>Producer entry point and close: properties\<close>

lemma rb_size_val: "RB_SIZE = 65536"
  by (simp add: RB_SIZE_def)

text \<open>
  C6. A push whose word count is not 4 returns 0 and leaves the whole state as it was,
  whatever the state: no slot, index, stream or thread changes and no session starts.
\<close>

theorem push_wrong_count_rejected:
  "nwords \<noteq> 4 \<Longrightarrow> sniffer_dpi_push e stream_id nwords w0 w1 w2 w3 s = Inr (0, s)"
  by (simp add: sniffer_dpi_push_def)

theorem push_wrong_count_rejected_witness:
  "(3 :: s32) \<noteq> 4 \<and> sniffer_dpi_push demo_env 0 3 1 2 3 4 init_state = Inr (0, init_state)"
  using push_wrong_count_rejected [of 3 demo_env 0 1 2 3 4 init_state] by simp

text \<open>
  C5. A push with four words on an allocated ring that has no free slot
  (\<open>rb_free (head, tail) = 0\<close>, that is \<open>RB_SIZE - 1\<close> live frames) returns 0 and
  leaves the whole state, in particular every slot, \<open>head\<close> and \<open>tail\<close>, unchanged.
\<close>

theorem push_full_rejected:
  "ring s \<noteq> None \<Longrightarrow> rb_free (head s) (tail s) = 0 \<Longrightarrow>
   sniffer_dpi_push e stream_id nwords w0 w1 w2 w3 s = Inr (0, s)"
  by (auto simp add: sniffer_dpi_push_def)

theorem push_full_rejected_witness:
  "ring (init_state\<lparr> ring := Some blank_ring, head := 0xFFFF \<rparr>) \<noteq> None \<and>
   rb_free (head (init_state\<lparr> ring := Some blank_ring, head := 0xFFFF \<rparr>))
           (tail (init_state\<lparr> ring := Some blank_ring, head := 0xFFFF \<rparr>)) = 0 \<and>
   sniffer_dpi_push demo_env 0 4 1 2 3 4 (init_state\<lparr> ring := Some blank_ring, head := 0xFFFF \<rparr>)
     = Inr (0, init_state\<lparr> ring := Some blank_ring, head := 0xFFFF \<rparr>)"
  using push_full_rejected [of "init_state\<lparr> ring := Some blank_ring, head := 0xFFFF \<rparr>"
      demo_env 0 4 1 2 3 4]
  by (simp add: init_state_def rb_free_def rb_used_def RB_SIZE_def)

text \<open>
  C9. Close on the uninitialised state changes nothing (no file appears on disk, and
  \<open>running\<close> was already false). After any close the two stream handles and the ring
  pointer are null, so a second close finds nothing to release and changes nothing.
\<close>

theorem close_uninitialized_and_twice:
  "sniffer_dpi_close init_state = init_state \<and>
   fbin (sniffer_dpi_close s) = None \<and>
   fcsv (sniffer_dpi_close s) = None \<and>
   ring (sniffer_dpi_close s) = None \<and>
   sniffer_dpi_close (sniffer_dpi_close s) = sniffer_dpi_close s"
  by (simp add: sniffer_dpi_close_def init_state_def flush_to_def)

text \<open>
  C2 (as amended). The code has no terminal state. Close leaves \<open>ring\<close> null and
  \<open>running\<close> false, which are the conditions of the lazy start, so the next push with
  four words starts a session again when the host grants the resources: a ring is
  allocated, both sinks are opened anew (and truncated), \<open>running\<close> is set and one more
  writer thread is created. \<open>head\<close>, \<open>tail\<close> and the console counter are not
  reset: the push is accepted or rejected by the old indices.
\<close>

theorem push_after_close_restarts:
  assumes "malloc_ring e = Some m" and "fopen_ok e bin_path" and "fopen_ok e csv_path"
    and "thread_ok e" and "head s < RB_SIZE"
  shows "\<exists>r s'. sniffer_dpi_push e stream_id 4 w0 w1 w2 w3 (sniffer_dpi_close s) = Inr (r, s') \<and>
           r = (if rb_free (head s) (tail s) = 0 then 0 else 1) \<and>
           ring s' \<noteq> None \<and> running s' \<and>
           fbin s' = Some [] \<and> fcsv s' = Some csv_header \<and>
           disk s' bin_path = Some [] \<and> disk s' csv_path = Some [] \<and>
           writers s' = writers s @ [Top] \<and>
           tail s' = tail s \<and> print_count s' = print_count s"
  using assms
  by (simp add: sniffer_dpi_push_def start_consumer_def sniffer_dpi_close_def Let_def
        bin_path_def csv_path_def)

theorem push_after_close_restarts_witness:
  "\<exists>r s'. sniffer_dpi_push demo_env 0 4 5 6 7 8 (sniffer_dpi_close init_state) = Inr (r, s') \<and>
     r = 1 \<and> ring s' \<noteq> None \<and> running s' \<and> writers s' = [Top]"
  using push_after_close_restarts [of demo_env blank_ring init_state 0 5 6 7 8]
  by (auto simp add: demo_env_def init_state_def rb_free_def rb_used_def RB_SIZE_def)

text \<open>
  C2 (as stated) fails. On the concrete host the first push starts a session and is
  accepted; after close, the second push again allocates the ring, opens both sinks,
  sets \<open>running\<close> and creates a second writer thread.
\<close>

theorem push_after_close_counterexample:
  "sniffer_dpi_push demo_env 0 4 1 2 3 4 init_state =
     Inr (1, \<lparr> ring = Some (blank_ring(0 := \<lparr> w_0 = 1, w_1 = 2, w_2 = 3, w_3 = 4 \<rparr>)),
              head = 1, tail = 0, running = True, fbin = Some [], fcsv = Some csv_header,
              print_enable = False, print_every = 1, print_count = 0,
              disk = (disk init_state)(bin_path := Some [], csv_path := Some []),
              stderr_out = [], writers = [Top] \<rparr>) \<and>
   sniffer_dpi_push demo_env 0 4 5 6 7 8
     (sniffer_dpi_close
        \<lparr> ring = Some (blank_ring(0 := \<lparr> w_0 = 1, w_1 = 2, w_2 = 3, w_3 = 4 \<rparr>)),
          head = 1, tail = 0, running = True, fbin = Some [], fcsv = Some csv_header,
          print_enable = False, print_every = 1, print_count = 0,
          disk = (disk init_state)(bin_path := Some [], csv_path := Some []),
          stderr_out = [], writers = [Top] \<rparr>) =
     Inr (1, \<lparr> ring = Some (blank_ring(1 := \<lparr> w_0 = 5, w_1 = 6, w_2 = 7, w_3 = 8 \<rparr>)),
              head = 2, tail = 0, running = True, fbin = Some [], fcsv = Some csv_header,
              print_enable = False, print_every = 1, print_count = 0,
              disk = (disk init_state)(bin_path := Some [], csv_path := Some []),
              stderr_out = [], writers = [Top, Top] \<rparr>)"
  by (simp add: sniffer_dpi_push_def start_consumer_def sniffer_dpi_close_def Let_def
        demo_env_def init_state_def rb_free_def rb_used_def RB_SIZE_def bin_path_def
        csv_path_def flush_to_def read_print_enable_def read_print_every_def)

section \<open>Output formatting: properties\<close>

lemma digit_char_not_newline: "d < 16 \<Longrightarrow> digit_char d \<noteq> newline"
proof -
  assume "d < 16"
  then have "digit_char d \<in> set ''0123456789ABCDEF''"
    unfolding digit_char_def by (intro nth_mem) simp
  then show ?thesis by (auto simp add: newline_def)
qed

lemma dec_digits_no_newline: "newline \<notin> set (dec_digits n)"
proof (induction n rule: dec_digits.induct)
  case (1 n)
  show ?case
  proof (cases "n < 10")
    case True
    then show ?thesis
      using digit_char_not_newline [of n] by (subst dec_digits.simps) auto
  next
    case False
    moreover have "n mod 10 < 16" by (rule less_trans [of _ 10]) simp_all
    ultimately show ?thesis
      using 1 digit_char_not_newline [of "n mod 10"] by (subst dec_digits.simps) auto
  qed
qed

lemma hex_digits_no_newline: "newline \<notin> set (hex_digits n)"
proof (induction n rule: hex_digits.induct)
  case (1 n)
  show ?case
  proof (cases "n < 16")
    case True
    then show ?thesis
      using digit_char_not_newline [of n] by (subst hex_digits.simps) auto
  next
    case False
    moreover have "n mod 16 < 16" by simp
    ultimately show ?thesis
      using 1 digit_char_not_newline [of "n mod 16"] by (subst hex_digits.simps) auto
  qed
qed

lemma line_count_append [simp]: "line_count (a @ b) = line_count a + line_count b"
  by (simp add: line_count_def)

lemma line_count_none: "newline \<notin> set cs \<Longrightarrow> line_count cs = 0"
  by (induction cs) (auto simp add: line_count_def)

lemma line_count_Cons:
  "line_count (c # cs) = (if c = newline then 1 else 0) + line_count cs"
  by (simp add: line_count_def)

lemma line_count_Nil [simp]: "line_count [] = 0"
  by (simp add: line_count_def)

lemma line_count_fmt_u [simp]: "line_count (fmt_u x) = 0"
  by (simp add: fmt_u_def line_count_none dec_digits_no_newline)

lemma line_count_fmt_X [simp]: "line_count (fmt_X x) = 0"
  by (simp add: fmt_X_def line_count_none hex_digits_no_newline)

lemma line_count_fmt_0X [simp]: "line_count (fmt_0X k x) = 0"
proof -
  have "line_count (replicate n CHR ''0'') = 0" for n
    by (rule line_count_none) (simp add: newline_def)
  then show ?thesis by (simp add: fmt_0X_def)
qed


lemma line_count_console_line: "line_count (console_line d) = 1"
  by (simp add: console_line_def line_count_Cons newline_def)





lemma bin_image_snoc: "bin_image en (fs @ [f]) = bin_image en fs @ frame_bytes en f"
  by (simp add: bin_image_def)

lemma csv_text_snoc: "csv_text (fs @ [f]) = csv_text fs @ csv_line (decode_to_fields f)"
  by (simp add: csv_text_def)

lemma console_text_snoc:
  "console_text p c (fs @ [f]) =
     console_text p c fs @
     (if (c + of_nat (length fs) + 1) mod p = 0 then console_line (decode_to_fields f) else [])"
  by (induction fs arbitrary: c) (simp_all add: add.assoc add.commute add.left_commute)

subsection \<open>Console sampling\<close>

lemma unat_succ: "unat (c :: u32) + 1 < 4294967296 \<Longrightarrow> unat (c + 1) = unat c + 1"
  by (simp add: unat_word_ariths)

lemma word_mod_zero_iff: "(x mod p = 0) \<longleftrightarrow> (unat x mod unat p = 0)" for x p :: u32
proof -
  have "(x mod p = 0) \<longleftrightarrow> unat (x mod p) = unat (0 :: u32)"
    by (simp only: word_unat_eq_iff)
  then show ?thesis by (simp add: unat_mod)
qed

lemma unat_nonzero: "p \<noteq> 0 \<Longrightarrow> 0 < unat p" for p :: u32
  by (simp add: unat_gt_0)

lemma div_step: "(n + 1) div P = n div P + (if (n + 1) mod P = 0 then 1 else 0)" for n P :: nat
  by (simp add: div_Suc)

lemma console_text_count:
  assumes "p \<noteq> 0"
  shows "unat c + length fs < 4294967296 \<Longrightarrow>
         line_count (console_text p c fs) = (unat c + length fs) div unat p - unat c div unat p"
proof (induction fs arbitrary: c)
  case Nil
  then show ?case by simp
next
  case (Cons f fs)
  have st: "unat (c + 1) = unat c + 1"
    using Cons.prems by (intro unat_succ) simp
  have ih: "line_count (console_text p (c + 1) fs)
            = (unat c + 1 + length fs) div unat p - (unat c + 1) div unat p"
    using Cons.IH [of "c + 1"] Cons.prems st by simp
  have mono: "(unat c + 1) div unat p \<le> (unat c + 1 + length fs) div unat p"
    by (rule div_le_mono) simp
  have cond: "((c + 1) mod p = 0) \<longleftrightarrow> ((unat c + 1) mod unat p = 0)"
    by (simp add: word_mod_zero_iff st)
  show ?case
    using ih mono cond div_step [of "unat c" "unat p"]
    by (simp add: line_count_console_line add.commute add.left_commute)
qed

lemma every_nth_snoc:
  "every_nth P (fs @ [f]) = every_nth P fs @ (if P dvd (length fs + 1) then [f] else [])"
proof -
  have "map (\<lambda>i. (fs @ [f]) ! (i - 1)) (filter (\<lambda>i. P dvd i) [1 ..< length fs + 1])
        = map (\<lambda>i. fs ! (i - 1)) (filter (\<lambda>i. P dvd i) [1 ..< length fs + 1])"
    by (rule map_cong) (auto simp add: nth_append)
  then show ?thesis
    by (simp add: every_nth_def)
qed

lemma console_text_every_nth:
  assumes "p \<noteq> 0"
  shows "length fs < 4294967296 \<Longrightarrow>
         console_text p 0 fs =
           concat (map (console_line \<circ> decode_to_fields) (every_nth (unat p) fs))"
proof (induction fs rule: rev_induct)
  case Nil
  then show ?case by (simp add: every_nth_def)
next
  case (snoc f fs)
  have n: "unat (of_nat (length fs) :: u32) = length fs"
    using snoc.prems by (simp add: unat_of_nat)
  then have "unat (of_nat (length fs) + 1 :: u32) = length fs + 1"
    using snoc.prems unat_succ [of "of_nat (length fs)"] by simp
  then have cond: "((of_nat (length fs) + 1 :: u32) mod p = 0) \<longleftrightarrow> unat p dvd (length fs + 1)"
    by (simp add: word_mod_zero_iff dvd_eq_mod_eq_0)
  show ?case
    using snoc cond by (simp add: console_text_snoc every_nth_snoc)
qed

lemma line_count_console_lines:
  "line_count (concat (map (console_line \<circ> decode_to_fields) fs)) = length fs"
  by (induction fs) (simp_all add: line_count_console_line)

lemma length_every_nth:
  assumes "0 < P"
  shows "length (every_nth P fs) = length fs div P"
proof (induction fs rule: rev_induct)
  case Nil
  then show ?case by (simp add: every_nth_def)
next
  case (snoc f fs)
  have "(length fs + 1) div P = length fs div P + (if (length fs + 1) mod P = 0 then 1 else 0)"
    by (rule div_step)
  then show ?case using snoc by (simp add: every_nth_snoc dvd_eq_mod_eq_0)
qed

lemma unat_count_succ:
  "unat (of_nat n + 1 :: u32) = (n + 1) mod 4294967296"
proof -
  have "(of_nat n + 1 :: u32) = of_nat (n + 1)" by simp
  then show ?thesis by (simp only: unat_of_nat) simp
qed

lemma console_text_every_nth_dvd:
  assumes "p \<noteq> 0" and "unat p dvd 4294967296"
  shows "console_text p 0 fs =
           concat (map (console_line \<circ> decode_to_fields) (every_nth (unat p) fs))"
proof (induction fs rule: rev_induct)
  case Nil
  then show ?case by (simp add: every_nth_def)
next
  case (snoc f fs)
  have "(length fs + 1) mod 4294967296 mod unat p = (length fs + 1) mod unat p"
    using assms(2) by (rule mod_mod_cancel)
  then have cond: "((of_nat (length fs) + 1 :: u32) mod p = 0) \<longleftrightarrow> unat p dvd (length fs + 1)"
    by (simp only: word_mod_zero_iff unat_count_succ dvd_eq_mod_eq_0)
  show ?case
    using snoc cond by (simp add: console_text_snoc every_nth_snoc)
qed

lemma console_text_sampled:
  assumes "p \<noteq> 0" and "length fs < 4294967296 \<or> unat p dvd 4294967296"
  shows "console_text p 0 fs =
           concat (map (console_line \<circ> decode_to_fields) (every_nth (unat p) fs))"
    and "line_count (console_text p 0 fs) = length fs div unat p"
proof -
  show eq: "console_text p 0 fs =
           concat (map (console_line \<circ> decode_to_fields) (every_nth (unat p) fs))"
    using assms console_text_every_nth [of p fs] console_text_every_nth_dvd [of p fs] by blast
  have "0 < unat p" using assms(1) by (rule unat_nonzero)
  then show "line_count (console_text p 0 fs) = length fs div unat p"
    unfolding eq by (simp add: line_count_console_lines length_every_nth)
qed

section \<open>Ring indices as counters\<close>

lemma mask_val: "RB_SIZE - 1 = mask 16"
  by (simp add: RB_SIZE_def mask_eq_exp_minus_1)

lemma unat_and_mask16: "unat (x AND (RB_SIZE - 1)) = unat x mod 65536"
  by (simp add: mask_val unat_mod take_bit_eq_mod flip: take_bit_eq_mask)

lemma lt_rb_size: "h < RB_SIZE \<longleftrightarrow> unat h < 65536"
  by (simp add: RB_SIZE_def word_less_nat_alt)

lemma unat_next: "unat ((t + 1) AND (RB_SIZE - 1)) = (unat t + 1) mod 65536"
  apply (simp add: unat_and_mask16 unat_word_ariths)
  apply (simp add: mod_mod_cancel)
  done

lemma unat_lt32: "unat (x :: u32) < 4294967296"
  using unsigned_less [of x, where 'a = nat] by simp

lemma wrap_sub: "(a :: nat) < 4294967296 \<Longrightarrow> t \<le> a \<Longrightarrow> (a + 4294967296 - t) mod 4294967296 = a - t"
proof -
  assume a: "a < 4294967296" "t \<le> a"
  then have "a + 4294967296 - t = (a - t) + 1 * 4294967296" by simp
  then have "(a + 4294967296 - t) mod 4294967296 = (a - t) mod 4294967296"
    by (simp only: mod_mult_self1)
  then show ?thesis using a by simp
qed

lemma unat_rb_used: "unat (rb_used h t) = (unat h + 4294967296 - unat t) mod 65536"
proof -
  have lt: "unat t < 4294967296" by (rule unat_lt32)
  have "unat (h - t) = (unat h + 4294967296 - unat t) mod 4294967296"
  proof (cases "unat t \<le> unat h")
    case True
    then show ?thesis using wrap_sub [OF unat_lt32 [of h] True] by (simp add: unat_sub_if')
  next
    case False
    then have "unat h + 4294967296 - unat t < 4294967296" using lt by simp
    then show ?thesis using False by (simp add: unat_sub_if')
  qed
  then have "unat (rb_used h t) = ((unat h + 4294967296 - unat t) mod 4294967296) mod 65536"
    by (simp add: rb_used_def unat_and_mask16)
  also have "\<dots> = (unat h + 4294967296 - unat t) mod 65536"
    by (rule mod_mod_cancel) simp
  finally show ?thesis .
qed

lemma rb_free_zero: "rb_free h t = 0 \<longleftrightarrow> unat (rb_used h t) = 65535"
proof -
  have "rb_free h t = 0 \<longleftrightarrow> rb_used h t = 65535"
    by (simp add: rb_free_def RB_SIZE_def)
  also have "\<dots> \<longleftrightarrow> unat (rb_used h t) = unat (65535 :: u32)"
    by (simp only: word_unat_eq_iff)
  finally show ?thesis by simp
qed

lemma mod_diff_counters:
  "P \<le> A \<Longrightarrow> (A mod 65536 + 4294967296 - P mod 65536) mod 65536 = (A - P) mod (65536::nat)"
proof -
  assume le: "P \<le> A"
  have a: "P mod 65536 < 4294967296" by (rule less_trans [of _ 65536]) simp_all
  have "int ((A mod 65536 + 4294967296 - P mod 65536) mod 65536)
        = (int (A mod 65536) + 4294967296 - int (P mod 65536)) mod 65536"
    using a by (simp add: zmod_int)
  also have "\<dots> = (int (A mod 65536) - int (P mod 65536)) mod 65536"
  proof -
    have "int (A mod 65536) + 4294967296 - int (P mod 65536)
          = (int (A mod 65536) - int (P mod 65536)) + 65536 * 65536" by simp
    then show ?thesis by (simp only: mod_mult_self2)
  qed
  also have "\<dots> = (int A - int P) mod 65536"
    by (simp add: zmod_int mod_diff_eq)
  also have "\<dots> = int ((A - P) mod 65536)"
    using le by (simp add: zmod_int)
  finally show ?thesis by (simp only: of_nat_eq_iff)
qed

lemma used_counters:
  assumes "P \<le> A" "A - P \<le> 65535" "unat h = A mod 65536" "unat t = P mod 65536"
  shows "unat (rb_used h t) = A - P"
  using assms by (simp add: unat_rb_used mod_diff_counters)

lemma same_slot_same_count:
  "D \<le> Hs \<Longrightarrow> Hs - D < 65536 \<Longrightarrow> D mod 65536 = Hs mod (65536::nat) \<Longrightarrow> D = Hs"
proof -
  assume a: "D \<le> Hs" "Hs - D < 65536" "D mod 65536 = Hs mod (65536::nat)"
  have "(65536::nat) dvd Hs - D"
    using a(1,3) mod_eq_dvd_iff_nat [of D Hs 65536] by simp
  then have "Hs - D = 0"
    using a(2) nat_dvd_not_less [of "Hs - D" 65536] by (cases "Hs - D = 0") simp_all
  then show ?thesis using a(1) by simp
qed

lemma of_nat_unat_id: "(of_nat (unat h) :: u32) = h"
  by simp

lemma slot_of_counter: "unat (h :: u32) = A mod 65536 \<Longrightarrow> of_nat (A mod 65536) = h"
proof -
  assume a: "unat h = A mod 65536"
  show ?thesis using of_nat_unat_id [of h] by (simp only: a)
qed

lemma unat_slot: "unat (of_nat (i mod 65536) :: u32) = i mod 65536"
proof -
  have "i mod 65536 < (2::nat) ^ LENGTH(32)" by (rule less_trans [of _ 65536]) simp_all
  then show ?thesis by (rule of_nat_inverse [OF refl])
qed

lemma distinct_slots:
  assumes "i < A" "A - i < 65536" "unat (h :: u32) = A mod 65536"
  shows "of_nat (i mod 65536) \<noteq> h"
proof
  assume eq: "of_nat (i mod 65536) = h"
  have "unat h = i mod 65536"
    using unat_slot [of i] by (simp only: eq)
  with assms(3) have "i mod 65536 = A mod 65536" by (simp only:)
  moreover have "i \<le> A" using assms(1) by (rule less_imp_le)
  ultimately have "i = A" using assms(2) by (rule same_slot_same_count [rotated 2])
  then show False using assms(1) by (simp only: less_irrefl)
qed

section \<open>The operations under their preconditions\<close>


lemma read_print_every_nonzero: "read_print_every e 1 \<noteq> 0"
  by (simp add: read_print_every_def split: option.split)

lemma start_consumer_ok:
  assumes "host_ok e" "\<not> running s"
  shows "\<exists>m. malloc_ring e = Some m \<and>
           start_consumer e s =
             Inr (s\<lparr> ring := Some m, fbin := Some [], fcsv := Some csv_header,
                       disk := (disk s)(bin_path := Some [], csv_path := Some []),
                       print_enable := read_print_enable e (print_enable s),
                       print_every := read_print_every e (print_every s),
                       running := True, writers := writers s @ [Top] \<rparr>)"
  using assms by (auto simp add: host_ok_def start_consumer_def)

lemma emit_frame_ok:
  assumes "fbin s = Some b" "fcsv s = Some c" "print_every s \<noteq> 0"
  shows "emit_frame e f s =
           Inr (s\<lparr> fbin := Some (b @ frame_bytes (endianness e) f),
                     fcsv := Some (c @ csv_line (decode_to_fields f)),
                     print_count := (if print_enable s then print_count s + 1 else print_count s),
                     stderr_out := (if print_enable s \<and> (print_count s + 1) mod print_every s = 0
                                    then stderr_out s @ console_line (decode_to_fields f)
                                    else stderr_out s) \<rparr>)"
  using assms by (simp add: emit_frame_def Let_def)

section \<open>The invariant is kept by every event\<close>

lemma paths_differ: "bin_path \<noteq> csv_path" "csv_path \<noteq> bin_path"
  by (simp_all add: bin_path_def csv_path_def)

lemma session_invI:
  assumes "ring s = Some r" and "writers s = [w]" and "running s"
    and "P \<le> length (drained l)" and "length (drained l) \<le> Hs"
    and "Hs \<le> length (accepted l)" and "length (accepted l) - P \<le> 65535"
    and "unat (tail s) = P mod 65536"
    and "unat (head s) = length (accepted l) mod 65536"
    and "case w of Top \<Rightarrow> P = length (drained l)
         | Drain t h \<Rightarrow> unat t = length (drained l) mod 65536 \<and> unat h = Hs mod 65536
         | Exited \<Rightarrow> False"
    and "drained l = take (length (drained l)) (accepted l)"
    and "\<forall>i. length (drained l) \<le> i \<and> i < length (accepted l) \<longrightarrow>
             r (of_nat (i mod 65536)) = accepted l ! i"
    and "fbin s = Some (bin_image (endianness e) (drained l))"
    and "fcsv s = Some (csv_text (drained l))"
    and "print_enable s = read_print_enable e False"
    and "print_every s = read_print_every e 1"
    and "print_count s = (if print_enable s then of_nat (length (drained l)) else 0)"
    and "stderr_out s =
          (if print_enable s then console_text (print_every s) 0 (drained l) else [])"
    and "published l = P"
    and "passes l = 0 \<longrightarrow> P = 0"
    and "disk s bin_path = Some (bin_image (endianness e) (take P (drained l)))"
    and "disk s csv_path = Some (if passes l = 0 then [] else csv_text (take P (drained l)))"
  shows "session_inv e (s, l)"
  unfolding session_inv_def fst_conv snd_conv
  apply (rule exI [of _ r], rule exI [of _ w], rule exI [of _ P], rule exI [of _ Hs])
  apply (intro conjI)
  using assms apply blast+
  done

lemma session_invD:
  assumes "session_inv e (s, l)"
  obtains r w P Hs where
    "ring s = Some r" and "writers s = [w]" and "running s"
    and "P \<le> length (drained l)" and "length (drained l) \<le> Hs"
    and "Hs \<le> length (accepted l)" and "length (accepted l) - P \<le> 65535"
    and "unat (tail s) = P mod 65536"
    and "unat (head s) = length (accepted l) mod 65536"
    and "case w of Top \<Rightarrow> P = length (drained l)
         | Drain t h \<Rightarrow> unat t = length (drained l) mod 65536 \<and> unat h = Hs mod 65536
         | Exited \<Rightarrow> False"
    and "drained l = take (length (drained l)) (accepted l)"
    and "\<forall>i. length (drained l) \<le> i \<and> i < length (accepted l) \<longrightarrow>
             r (of_nat (i mod 65536)) = accepted l ! i"
    and "fbin s = Some (bin_image (endianness e) (drained l))"
    and "fcsv s = Some (csv_text (drained l))"
    and "print_enable s = read_print_enable e False"
    and "print_every s = read_print_every e 1"
    and "print_count s = (if print_enable s then of_nat (length (drained l)) else 0)"
    and "stderr_out s =
          (if print_enable s then console_text (print_every s) 0 (drained l) else [])"
    and "published l = P"
    and "passes l = 0 \<longrightarrow> P = 0"
    and "disk s bin_path = Some (bin_image (endianness e) (take P (drained l)))"
    and "disk s csv_path = Some (if passes l = 0 then [] else csv_text (take P (drained l)))"
  using assms unfolding session_inv_def fst_conv snd_conv
  by (elim exE conjE) (rule that; assumption)

lemma push_decision:
  assumes inv: "session_inv e (s, l)"
  shows "\<exists>c'. exec e (Push sid nw a b c d) (s, l) = Inr c' \<and> session_inv e c' \<and>
               drained (snd c') = drained l \<and> writers (fst c') = writers s \<and>
               (\<exists>xs. accepted (snd c') = accepted l @ xs) \<and>
               (nw = 4 \<longrightarrow>
                  snd c' = (if length (accepted l) - published l < 65535
                            then l\<lparr> accepted := accepted l @
                                    [\<lparr> w_0 = a, w_1 = b, w_2 = c, w_3 = d \<rparr>] \<rparr>
                            else l))"
proof (cases "nw = 4")
  case False
  then have "exec e (Push sid nw a b c d) (s, l) = Inr (s, l)"
    by (simp add: sniffer_dpi_push_def)
  then show ?thesis using inv False by simp
next
  case nw: True
  from inv obtain r w P Hs where
    ring: "ring s = Some r" and wr: "writers s = [w]" and run: "running s"
    and PD: "P \<le> length (drained l)" and DH: "length (drained l) \<le> Hs"
    and HA: "Hs \<le> length (accepted l)" and cap: "length (accepted l) - P \<le> 65535"
    and tl: "unat (tail s) = P mod 65536"
    and hd: "unat (head s) = length (accepted l) mod 65536"
    and wst: "case w of Top \<Rightarrow> P = length (drained l)
         | Drain t h \<Rightarrow> unat t = length (drained l) mod 65536 \<and> unat h = Hs mod 65536
         | Exited \<Rightarrow> False"
    and pre: "drained l = take (length (drained l)) (accepted l)"
    and slots: "\<forall>i. length (drained l) \<le> i \<and> i < length (accepted l) \<longrightarrow>
             r (of_nat (i mod 65536)) = accepted l ! i"
    and fb: "fbin s = Some (bin_image (endianness e) (drained l))"
    and fc: "fcsv s = Some (csv_text (drained l))"
    and pe: "print_enable s = read_print_enable e False"
    and pv: "print_every s = read_print_every e 1"
    and pc: "print_count s = (if print_enable s then of_nat (length (drained l)) else 0)"
    and er: "stderr_out s =
          (if print_enable s then console_text (print_every s) 0 (drained l) else [])"
    and pub: "published l = P"
    and pz: "passes l = 0 \<longrightarrow> P = 0"
    and dkb: "disk s bin_path = Some (bin_image (endianness e) (take P (drained l)))"
    and dkc: "disk s csv_path =
          Some (if passes l = 0 then [] else csv_text (take P (drained l)))"
    by (rule session_invD)
  have PA: "P \<le> length (accepted l)" using PD DH HA by simp
  have used: "unat (rb_used (head s) (tail s)) = length (accepted l) - P"
    using PA cap hd tl by (rule used_counters)
  show ?thesis
  proof (cases "rb_free (head s) (tail s) = 0")
    case True
    then have "exec e (Push sid nw a b c d) (s, l) = Inr (s, l)"
      using ring nw by (simp add: sniffer_dpi_push_def)
    moreover have "length (accepted l) - published l = 65535"
      using True used pub by (simp add: rb_free_zero)
    ultimately show ?thesis using inv by simp
  next
    case False
    then have room: "length (accepted l) - P \<noteq> 65535"
      using used by (simp add: rb_free_zero)
    have room': "length (accepted l) - published l < 65535"
      using room cap pub by simp
    have hlt: "head s < RB_SIZE"
      using hd by (simp add: lt_rb_size)
    define f where "f = \<lparr> w_0 = a, w_1 = b, w_2 = c, w_3 = d \<rparr>"
    define s' where "s' = s\<lparr> ring := Some (r(head s := f)),
                              head := (head s + 1) AND (RB_SIZE - 1) \<rparr>"
    define l' where "l' = l\<lparr> accepted := accepted l @ [f] \<rparr>"
    have ex: "exec e (Push sid nw a b c d) (s, l) = Inr (s', l')"
      using ring nw False hlt by (simp add: sniffer_dpi_push_def s'_def l'_def f_def Let_def)
    have hd': "unat (head s') = length (accepted l') mod 65536"
      using hd by (simp add: s'_def l'_def unat_next mod_Suc_eq)
    have pre': "drained l' = take (length (drained l')) (accepted l')"
      using pre DH HA by (simp add: l'_def)
    have slots': "\<forall>i. length (drained l') \<le> i \<and> i < length (accepted l') \<longrightarrow>
             (r(head s := f)) (of_nat (i mod 65536)) = accepted l' ! i"
    proof (intro allI impI)
      fix i
      assume i: "length (drained l') \<le> i \<and> i < length (accepted l')"
      show "(r(head s := f)) (of_nat (i mod 65536)) = accepted l' ! i"
      proof (cases "i < length (accepted l)")
        case True
        have "length (accepted l) - i < 65536"
          using i PD cap by (simp add: l'_def) arith
        then have "of_nat (i mod 65536) \<noteq> head s"
          using True hd by (intro distinct_slots)
        moreover have "r (of_nat (i mod 65536)) = accepted l ! i"
          using slots i True by (simp add: l'_def)
        ultimately show ?thesis using True by (simp add: l'_def nth_append)
      next
        case False
        then have "i = length (accepted l)" using i by (simp add: l'_def)
        moreover have "of_nat (length (accepted l) mod 65536) = head s"
          using hd by (rule slot_of_counter)
        ultimately show ?thesis by (simp add: l'_def)
      qed
    qed
    have "session_inv e (s', l')"
    proof (rule session_invI [where r = "r(head s := f)" and w = w and P = P and Hs = Hs])
      show "ring s' = Some (r(head s := f))" by (simp add: s'_def)
      show "writers s' = [w]" using wr by (simp add: s'_def)
      show "running s'" using run by (simp add: s'_def)
      show "P \<le> length (drained l')" using PD by (simp add: l'_def)
      show "length (drained l') \<le> Hs" using DH by (simp add: l'_def)
      show "Hs \<le> length (accepted l')" using HA by (simp add: l'_def)
      show "length (accepted l') - P \<le> 65535" using cap room PA by (simp add: l'_def)
      show "unat (tail s') = P mod 65536" using tl by (simp add: s'_def)
      show "unat (head s') = length (accepted l') mod 65536" by (rule hd')
      show "case w of Top \<Rightarrow> P = length (drained l')
         | Drain t h \<Rightarrow> unat t = length (drained l') mod 65536 \<and> unat h = Hs mod 65536
         | Exited \<Rightarrow> False" using wst by (cases w) (simp_all add: l'_def)
      show "drained l' = take (length (drained l')) (accepted l')" by (rule pre')
      show "\<forall>i. length (drained l') \<le> i \<and> i < length (accepted l') \<longrightarrow>
             (r(head s := f)) (of_nat (i mod 65536)) = accepted l' ! i" by (rule slots')
      show "fbin s' = Some (bin_image (endianness e) (drained l'))"
        using fb by (simp add: s'_def l'_def)
      show "fcsv s' = Some (csv_text (drained l'))" using fc by (simp add: s'_def l'_def)
      show "print_enable s' = read_print_enable e False" using pe by (simp add: s'_def)
      show "print_every s' = read_print_every e 1" using pv by (simp add: s'_def)
      show "print_count s' = (if print_enable s' then of_nat (length (drained l')) else 0)"
        using pc by (simp add: s'_def l'_def)
      show "stderr_out s' =
          (if print_enable s' then console_text (print_every s') 0 (drained l') else [])"
        using er by (simp add: s'_def l'_def)
      show "published l' = P" using pub by (simp add: l'_def)
      show "passes l' = 0 \<longrightarrow> P = 0" using pz by (simp add: l'_def)
      show "disk s' bin_path = Some (bin_image (endianness e) (take P (drained l')))"
        using dkb by (simp add: s'_def l'_def)
      show "disk s' csv_path =
          Some (if passes l' = 0 then [] else csv_text (take P (drained l')))"
        using dkc by (simp add: s'_def l'_def)
    qed
    moreover have "writers s' = writers s" by (simp add: s'_def)
    ultimately show ?thesis using ex room' by (simp add: l'_def f_def)
  qed
qed

lemma push_session:
  assumes inv: "session_inv e (s, l)"
  shows "\<exists>c'. exec e (Push sid nw a b c d) (s, l) = Inr c' \<and> session_inv e c' \<and>
               drained (snd c') = drained l \<and> writers (fst c') = writers s \<and>
               (\<exists>xs. accepted (snd c') = accepted l @ xs)"
  using push_decision [OF inv, of sid nw a b c d] by blast

lemma writer_top:
  assumes inv: "session_inv e (s, l)" and wr: "writers s = [Top]"
  shows "\<exists>c'. exec e (Writer 0) (s, l) = Inr c' \<and> session_inv e c' \<and>
               accepted (snd c') = accepted l \<and>
               (length (drained l) < K \<and> K \<le> length (accepted l) \<longrightarrow>
                  pending K c' < pending K (s, l))"
proof -
  from inv obtain r w P Hs where
    ring: "ring s = Some r" and wr0: "writers s = [w]" and run: "running s"
    and PD: "P \<le> length (drained l)" and DH: "length (drained l) \<le> Hs"
    and HA: "Hs \<le> length (accepted l)" and cap: "length (accepted l) - P \<le> 65535"
    and tl: "unat (tail s) = P mod 65536"
    and hd: "unat (head s) = length (accepted l) mod 65536"
    and wst0: "case w of Top \<Rightarrow> P = length (drained l)
         | Drain t h \<Rightarrow> unat t = length (drained l) mod 65536 \<and> unat h = Hs mod 65536
         | Exited \<Rightarrow> False"
    and pre: "drained l = take (length (drained l)) (accepted l)"
    and slots: "\<forall>i. length (drained l) \<le> i \<and> i < length (accepted l) \<longrightarrow>
             r (of_nat (i mod 65536)) = accepted l ! i"
    and fb: "fbin s = Some (bin_image (endianness e) (drained l))"
    and fc: "fcsv s = Some (csv_text (drained l))"
    and pe: "print_enable s = read_print_enable e False"
    and pv: "print_every s = read_print_every e 1"
    and pc: "print_count s = (if print_enable s then of_nat (length (drained l)) else 0)"
    and er: "stderr_out s =
          (if print_enable s then console_text (print_every s) 0 (drained l) else [])"
    and pub: "published l = P"
    and pz: "passes l = 0 \<longrightarrow> P = 0"
    and dkb: "disk s bin_path = Some (bin_image (endianness e) (take P (drained l)))"
    and dkc: "disk s csv_path =
          Some (if passes l = 0 then [] else csv_text (take P (drained l)))"
    by (rule session_invD)
  have w: "w = Top" using wr0 wr by simp
  have P: "P = length (drained l)" using wst0 w by simp
  define s' where "s' = s\<lparr> writers := [Drain (tail s) (head s)] \<rparr>"
  have ex: "exec e (Writer 0) (s, l) = Inr (s', l)"
    using wr run
    by (simp add: writer_step_def reads_slot_def log_step_def ends_pass_def s'_def)
  have "session_inv e (s', l)"
  proof (rule session_invI [where r = r and w = "Drain (tail s) (head s)" and P = P
          and Hs = "length (accepted l)"])
    show "ring s' = Some r" using ring by (simp add: s'_def)
    show "writers s' = [Drain (tail s) (head s)]" by (simp add: s'_def)
    show "running s'" using run by (simp add: s'_def)
    show "P \<le> length (drained l)" by (rule PD)
    show "length (drained l) \<le> length (accepted l)" using DH HA by simp
    show "length (accepted l) \<le> length (accepted l)" by simp
    show "length (accepted l) - P \<le> 65535" by (rule cap)
    show "unat (tail s') = P mod 65536" using tl by (simp add: s'_def)
    show "unat (head s') = length (accepted l) mod 65536" using hd by (simp add: s'_def)
    show "case Drain (tail s) (head s) of Top \<Rightarrow> P = length (drained l)
         | Drain t h \<Rightarrow> unat t = length (drained l) mod 65536 \<and>
                          unat h = length (accepted l) mod 65536
         | Exited \<Rightarrow> False" using tl hd P by simp
    show "drained l = take (length (drained l)) (accepted l)" by (rule pre)
    show "\<forall>i. length (drained l) \<le> i \<and> i < length (accepted l) \<longrightarrow>
             r (of_nat (i mod 65536)) = accepted l ! i" by (rule slots)
    show "fbin s' = Some (bin_image (endianness e) (drained l))" using fb by (simp add: s'_def)
    show "fcsv s' = Some (csv_text (drained l))" using fc by (simp add: s'_def)
    show "print_enable s' = read_print_enable e False" using pe by (simp add: s'_def)
    show "print_every s' = read_print_every e 1" using pv by (simp add: s'_def)
    show "print_count s' = (if print_enable s' then of_nat (length (drained l)) else 0)"
      using pc by (simp add: s'_def)
    show "stderr_out s' =
          (if print_enable s' then console_text (print_every s') 0 (drained l) else [])"
      using er by (simp add: s'_def)
    show "published l = P" by (rule pub)
    show "passes l = 0 \<longrightarrow> P = 0" by (rule pz)
    show "disk s' bin_path = Some (bin_image (endianness e) (take P (drained l)))"
      using dkb by (simp add: s'_def)
    show "disk s' csv_path =
          Some (if passes l = 0 then [] else csv_text (take P (drained l)))"
      using dkc by (simp add: s'_def)
  qed
  moreover have "pending K (s', l) < pending K (s, l)"
    if ltK: "length (drained l) < K" "K \<le> length (accepted l)"
  proof -
    have lt: "length (drained l) < length (accepted l)" using ltK by simp
    have "tail s \<noteq> head s"
    proof
      assume "tail s = head s"
      then have "length (drained l) mod 65536 = length (accepted l) mod 65536"
        using tl hd P by simp
      moreover have "length (drained l) \<le> length (accepted l)" using lt by simp
      moreover have "length (accepted l) - length (drained l) < 65536" using cap P by simp
      ultimately have "length (drained l) = length (accepted l)"
        by (rule same_slot_same_count [rotated 2])
      then show False using lt by simp
    qed
    then show ?thesis using wr by (simp add: pending_def s'_def)
  qed
  ultimately show ?thesis using ex by simp
qed

lemma writer_drain_end:
  assumes inv: "session_inv e (s, l)" and wr: "writers s = [Drain t t]"
  shows "\<exists>c'. exec e (Writer 0) (s, l) = Inr c' \<and> session_inv e c' \<and>
               accepted (snd c') = accepted l \<and>
               (length (drained l) < K \<and> K \<le> length (accepted l) \<longrightarrow>
                  pending K c' < pending K (s, l))"
proof -
  from inv obtain r w P Hs where
    ring: "ring s = Some r" and wr0: "writers s = [w]" and run: "running s"
    and PD: "P \<le> length (drained l)" and DH: "length (drained l) \<le> Hs"
    and HA: "Hs \<le> length (accepted l)" and cap: "length (accepted l) - P \<le> 65535"
    and tl: "unat (tail s) = P mod 65536"
    and hd: "unat (head s) = length (accepted l) mod 65536"
    and wst0: "case w of Top \<Rightarrow> P = length (drained l)
         | Drain t h \<Rightarrow> unat t = length (drained l) mod 65536 \<and> unat h = Hs mod 65536
         | Exited \<Rightarrow> False"
    and pre: "drained l = take (length (drained l)) (accepted l)"
    and slots: "\<forall>i. length (drained l) \<le> i \<and> i < length (accepted l) \<longrightarrow>
             r (of_nat (i mod 65536)) = accepted l ! i"
    and fb: "fbin s = Some (bin_image (endianness e) (drained l))"
    and fc: "fcsv s = Some (csv_text (drained l))"
    and pe: "print_enable s = read_print_enable e False"
    and pv: "print_every s = read_print_every e 1"
    and pc: "print_count s = (if print_enable s then of_nat (length (drained l)) else 0)"
    and er: "stderr_out s =
          (if print_enable s then console_text (print_every s) 0 (drained l) else [])"
    and pub: "published l = P"
    and pz: "passes l = 0 \<longrightarrow> P = 0"
    and dkb: "disk s bin_path = Some (bin_image (endianness e) (take P (drained l)))"
    and dkc: "disk s csv_path =
          Some (if passes l = 0 then [] else csv_text (take P (drained l)))"
    by (rule session_invD)
  have w: "w = Drain t t" using wr0 wr by simp
  have t: "unat t = length (drained l) mod 65536" and h: "unat t = Hs mod 65536"
    using wst0 w by simp_all
  have HD: "Hs - length (drained l) < 65536" using PD HA cap by arith
  have "length (drained l) mod 65536 = Hs mod 65536" using t h by simp
  then have DHs: "length (drained l) = Hs"
    using DH HD by (rule same_slot_same_count [rotated 2])
  define s' where "s' = (fflush_all (s\<lparr> tail := t \<rparr>))\<lparr> writers := [Top] \<rparr>"
  define l' where "l' = l\<lparr> published := length (drained l), passes := passes l + 1 \<rparr>"
  have ex: "exec e (Writer 0) (s, l) = Inr (s', l')"
    using wr
    by (simp add: writer_step_def log_step_def ends_pass_def s'_def l'_def fflush_all_def)
  have sl: "drained l' = drained l" "accepted l' = accepted l" by (simp_all add: l'_def)
  have "session_inv e (s', l')"
    unfolding sl
  proof (rule session_invI [where r = r and w = Top and P = "length (drained l)"
        and Hs = Hs, of s' l', unfolded sl])
    show "ring s' = Some r" using ring by (simp add: s'_def fflush_all_def)
    show "writers s' = [Top]" by (simp add: s'_def)
    show "running s'" using run by (simp add: s'_def fflush_all_def)
    show "length (drained l) \<le> length (drained l)" by simp
    show "length (drained l) \<le> Hs" by (rule DH)
    show "Hs \<le> length (accepted l)" by (rule HA)
    show "length (accepted l) - length (drained l) \<le> 65535" using cap PD by arith
    show "unat (tail s') = length (drained l) mod 65536" using t by (simp add: s'_def fflush_all_def)
    show "unat (head s') = length (accepted l) mod 65536" using hd by (simp add: s'_def fflush_all_def)
    show "case Top of Top \<Rightarrow> length (drained l) = length (drained l)
         | Drain t h \<Rightarrow> unat t = length (drained l) mod 65536 \<and> unat h = Hs mod 65536
         | Exited \<Rightarrow> False" by simp
    show "drained l = take (length (drained l)) (accepted l)" by (rule pre)
    show "\<forall>i. length (drained l) \<le> i \<and> i < length (accepted l) \<longrightarrow>
             r (of_nat (i mod 65536)) = accepted l ! i" by (rule slots)
    show "fbin s' = Some (bin_image (endianness e) (drained l))" using fb by (simp add: s'_def fflush_all_def)
    show "fcsv s' = Some (csv_text (drained l))" using fc by (simp add: s'_def fflush_all_def)
    show "print_enable s' = read_print_enable e False" using pe by (simp add: s'_def fflush_all_def)
    show "print_every s' = read_print_every e 1" using pv by (simp add: s'_def fflush_all_def)
    show "print_count s' = (if print_enable s' then of_nat (length (drained l)) else 0)"
      using pc by (simp add: s'_def fflush_all_def)
    show "stderr_out s' =
          (if print_enable s' then console_text (print_every s') 0 (drained l) else [])"
      using er by (simp add: s'_def fflush_all_def)
    show "published l' = length (drained l)" by (simp add: l'_def)
    show "passes l' = 0 \<longrightarrow> length (drained l) = 0" by (simp add: l'_def)
    show "disk s' bin_path =
          Some (bin_image (endianness e) (take (length (drained l)) (drained l)))"
      using fb fc by (simp add: s'_def fflush_all_def flush_to_def paths_differ)
    show "disk s' csv_path =
          Some (if passes l' = 0 then []
                else csv_text (take (length (drained l)) (drained l)))"
      using fc by (simp add: s'_def l'_def fflush_all_def flush_to_def)
  qed
  moreover have "pending K (s', l') < pending K (s, l)"
    using wr by (simp add: pending_def s'_def l'_def fflush_all_def)
  ultimately show ?thesis using ex by (simp add: l'_def)
qed

lemma writer_drain_frame:
  assumes inv: "session_inv e (s, l)" and wr: "writers s = [Drain t h]" and ne: "t \<noteq> h"
  shows "\<exists>c'. exec e (Writer 0) (s, l) = Inr c' \<and> session_inv e c' \<and>
               accepted (snd c') = accepted l \<and>
               (length (drained l) < K \<and> K \<le> length (accepted l) \<longrightarrow>
                  pending K c' < pending K (s, l))"
proof -
  from inv obtain r w P Hs where
    ring: "ring s = Some r" and wr0: "writers s = [w]" and run: "running s"
    and PD: "P \<le> length (drained l)" and DH: "length (drained l) \<le> Hs"
    and HA: "Hs \<le> length (accepted l)" and cap: "length (accepted l) - P \<le> 65535"
    and tl: "unat (tail s) = P mod 65536"
    and hd: "unat (head s) = length (accepted l) mod 65536"
    and wst0: "case w of Top \<Rightarrow> P = length (drained l)
         | Drain t h \<Rightarrow> unat t = length (drained l) mod 65536 \<and> unat h = Hs mod 65536
         | Exited \<Rightarrow> False"
    and pre: "drained l = take (length (drained l)) (accepted l)"
    and slots: "\<forall>i. length (drained l) \<le> i \<and> i < length (accepted l) \<longrightarrow>
             r (of_nat (i mod 65536)) = accepted l ! i"
    and fb: "fbin s = Some (bin_image (endianness e) (drained l))"
    and fc: "fcsv s = Some (csv_text (drained l))"
    and pe: "print_enable s = read_print_enable e False"
    and pv: "print_every s = read_print_every e 1"
    and pc: "print_count s = (if print_enable s then of_nat (length (drained l)) else 0)"
    and er: "stderr_out s =
          (if print_enable s then console_text (print_every s) 0 (drained l) else [])"
    and pub: "published l = P"
    and pz: "passes l = 0 \<longrightarrow> P = 0"
    and dkb: "disk s bin_path = Some (bin_image (endianness e) (take P (drained l)))"
    and dkc: "disk s csv_path =
          Some (if passes l = 0 then [] else csv_text (take P (drained l)))"
    by (rule session_invD)
  have w: "w = Drain t h" using wr0 wr by simp
  have t: "unat t = length (drained l) mod 65536" and h: "unat h = Hs mod 65536"
    using wst0 w by simp_all
  have "unat t \<noteq> unat h" using ne by (simp only: word_unat_eq_iff not_False_eq_True)
  then have DnH: "length (drained l) \<noteq> Hs" using t h by auto
  then have DA: "length (drained l) < length (accepted l)" using DH HA by simp
  have tlt: "t < RB_SIZE" using t by (simp add: lt_rb_size)
  have rt: "r t = accepted l ! length (drained l)"
  proof -
    have "of_nat (length (drained l) mod 65536) = t" using t by (rule slot_of_counter)
    then show ?thesis using slots DA by auto
  qed
  define f where "f = accepted l ! length (drained l)"
  define s1 where "s1 = s\<lparr> fbin := Some (bin_image (endianness e) (drained l) @ frame_bytes (endianness e) f),
               fcsv := Some (csv_text (drained l) @ csv_line (decode_to_fields f)),
               print_count := (if print_enable s then print_count s + 1 else print_count s),
               stderr_out := (if print_enable s \<and> (print_count s + 1) mod print_every s = 0
                              then stderr_out s @ console_line (decode_to_fields f)
                              else stderr_out s) \<rparr>"
  have pv0: "print_every s \<noteq> 0" by (simp add: pv read_print_every_nonzero)
  have em: "emit_frame e f s = Inr s1"
    unfolding s1_def using fb fc pv0 by (rule emit_frame_ok)
  define s' where "s' = s1\<lparr> writers := [Drain ((t + 1) AND (RB_SIZE - 1)) h] \<rparr>"
  define l' where "l' = l\<lparr> drained := drained l @ [f] \<rparr>"
  have ws: "writer_step e (Drain t h) s = Inr (Drain ((t + 1) AND (RB_SIZE - 1)) h, s1)"
    using ne ring tlt rt em by (simp add: writer_step_def f_def)
  have rs: "reads_slot (Drain t h) s = [f]"
    using ne ring rt by (simp add: reads_slot_def f_def)
  have ws1: "writers s1 = [Drain t h]" using wr by (simp add: s1_def)
  have ex: "exec e (Writer 0) (s, l) = Inr (s', l')"
    using wr ws rs ws1 ne by (simp add: log_step_def ends_pass_def s'_def l'_def)
  have "session_inv e (s', l')"
  proof (rule session_invI [where r = r and w = "Drain ((t + 1) AND (RB_SIZE - 1)) h"
        and P = P and Hs = Hs])
    show "ring s' = Some r" using ring by (simp add: s'_def s1_def)
    show "writers s' = [Drain ((t + 1) AND (RB_SIZE - 1)) h]" by (simp add: s'_def)
    show "running s'" using run by (simp add: s'_def s1_def)
    show "P \<le> length (drained l')" using PD by (simp add: l'_def)
    show "length (drained l') \<le> Hs" using DH DnH by (simp add: l'_def)
    show "Hs \<le> length (accepted l')" using HA by (simp add: l'_def)
    show "length (accepted l') - P \<le> 65535" using cap by (simp add: l'_def)
    show "unat (tail s') = P mod 65536" using tl by (simp add: s'_def s1_def)
    show "unat (head s') = length (accepted l') mod 65536" using hd by (simp add: s'_def s1_def l'_def)
    show "case Drain ((t + 1) AND (RB_SIZE - 1)) h of Top \<Rightarrow> P = length (drained l')
       | Drain t h \<Rightarrow> unat t = length (drained l') mod 65536 \<and> unat h = Hs mod 65536
       | Exited \<Rightarrow> False"
      using t h by (simp add: l'_def unat_next mod_Suc_eq)
    show "drained l' = take (length (drained l')) (accepted l')"
      using pre DA by (simp add: l'_def f_def take_Suc_conv_app_nth)
    show "\<forall>i. length (drained l') \<le> i \<and> i < length (accepted l') \<longrightarrow>
       r (of_nat (i mod 65536)) = accepted l' ! i"
      using slots by (simp add: l'_def)
    show "fbin s' = Some (bin_image (endianness e) (drained l'))"
      by (simp add: s'_def s1_def l'_def bin_image_snoc)
    show "fcsv s' = Some (csv_text (drained l'))"
      by (simp add: s'_def s1_def l'_def csv_text_snoc)
    show "print_enable s' = read_print_enable e False" using pe by (simp add: s'_def s1_def)
    show "print_every s' = read_print_every e 1" using pv by (simp add: s'_def s1_def)
    show "print_count s' = (if print_enable s' then of_nat (length (drained l')) else 0)"
      using pc by (simp add: s'_def s1_def l'_def)
    show "stderr_out s' =
        (if print_enable s' then console_text (print_every s') 0 (drained l') else [])"
      using er pc by (simp add: s'_def s1_def l'_def console_text_snoc)
    show "published l' = P" using pub by (simp add: l'_def)
    show "passes l' = 0 \<longrightarrow> P = 0" using pz by (simp add: l'_def)
    show "disk s' bin_path = Some (bin_image (endianness e) (take P (drained l')))"
      using dkb PD by (simp add: s'_def s1_def l'_def)
    show "disk s' csv_path =
        Some (if passes l' = 0 then [] else csv_text (take P (drained l')))"
      using dkc PD by (simp add: s'_def s1_def l'_def)
  qed
  moreover have "pending K (s', l') < pending K (s, l)" if "length (drained l) < K"
    using wr that ne by (auto simp add: pending_def s'_def l'_def s1_def)
  ultimately show ?thesis using ex by (simp add: l'_def)
qed

lemma writer_session:
  assumes inv: "session_inv e (s, l)"
  shows "\<exists>c'. exec e (Writer i) (s, l) = Inr c' \<and> session_inv e c' \<and>
               accepted (snd c') = accepted l \<and>
               (i = 0 \<and> length (drained l) < K \<and> K \<le> length (accepted l) \<longrightarrow>
                  pending K c' < pending K (s, l))"
proof -
  from inv obtain w P Hs where wr: "writers s = [w]"
    and wc: "case w of Top \<Rightarrow> P = length (drained l)
         | Drain t h \<Rightarrow> unat t = length (drained l) mod 65536 \<and> unat h = Hs mod 65536
         | Exited \<Rightarrow> False"
    by (rule session_invD)
  have wst: "w \<noteq> Exited" using wc by (cases w) simp_all
  show ?thesis
  proof (cases "i = 0")
    case False
    then have "exec e (Writer i) (s, l) = Inr (s, l)" using wr by simp
    then show ?thesis using inv False by simp
  next
    case True
    show ?thesis
    proof (cases w)
      case Top
      then show ?thesis using writer_top [OF inv, of K] wr True by simp
    next
      case (Drain t h)
      show ?thesis
      proof (cases "t = h")
        case True
        then show ?thesis using writer_drain_end [OF inv, of t K] wr Drain \<open>i = 0\<close> by simp
      next
        case False
        then show ?thesis using writer_drain_frame [OF inv, of t h K] wr Drain \<open>i = 0\<close> by simp
      qed
    next
      case Exited
      then show ?thesis using wst by simp
    qed
  qed
qed

lemma first_push:
  assumes ok: "host_ok e"
  shows "\<exists>c'. exec e (Push sid nw a b c d) (init_state, empty_log) = Inr c' \<and>
           (c' = (init_state, empty_log) \<or> session_inv e c') \<and> drained (snd c') = []"
proof (cases "nw = 4")
  case False
  then have "exec e (Push sid nw a b c d) (init_state, empty_log) = Inr (init_state, empty_log)"
    by (simp add: sniffer_dpi_push_def)
  then show ?thesis by (simp add: empty_log_def)
next
  case True
  have nr: "\<not> running init_state" by (simp add: init_state_def)
  from start_consumer_ok [OF ok nr] obtain m where
    m: "malloc_ring e = Some m" and
    st: "start_consumer e init_state =
             Inr (init_state\<lparr> ring := Some m, fbin := Some [], fcsv := Some csv_header,
                       disk := (disk init_state)(bin_path := Some [], csv_path := Some []),
                       print_enable := read_print_enable e (print_enable init_state),
                       print_every := read_print_every e (print_every init_state),
                       running := True, writers := writers init_state @ [Top] \<rparr>)"
    by blast
  define f where "f = \<lparr> w_0 = a, w_1 = b, w_2 = c, w_3 = d \<rparr>"
  define s0 where "s0 = init_state\<lparr> ring := Some m, fbin := Some [], fcsv := Some csv_header,
                       disk := (disk init_state)(bin_path := Some [], csv_path := Some []),
                       print_enable := read_print_enable e (print_enable init_state),
                       print_every := read_print_every e (print_every init_state),
                       running := True, writers := writers init_state @ [Top] \<rparr>"
  define s' where "s' = s0\<lparr> ring := Some (m(0 := f)), head := 1 \<rparr>"
  define l' where "l' = \<lparr> accepted = [f], drained = [], published = 0, passes = 0 \<rparr>"
  have sel: "ring init_state = None" "head init_state = 0" "tail init_state = 0"
    "writers init_state = []" "print_enable init_state = False" "print_every init_state = 1"
    "print_count init_state = 0" "stderr_out init_state = []"
    by (simp_all add: init_state_def)
  have sel0: "ring s0 = Some m" "head s0 = 0" "tail s0 = 0"
    by (simp_all add: s0_def sel)
  have free: "rb_free 0 0 \<noteq> 0" by (simp add: rb_free_def rb_used_def RB_SIZE_def)
  have "sniffer_dpi_push e sid nw a b c d init_state = Inr (1, s')"
    using True free st [folded s0_def]
    by (simp add: sniffer_dpi_push_def sel sel0 Let_def s'_def f_def RB_SIZE_def)
  then have ex: "exec e (Push sid nw a b c d) (init_state, empty_log) = Inr (s', l')"
    by (simp add: l'_def f_def empty_log_def)
  have "session_inv e (s', l')"
  proof (rule session_invI [where r = "m(0 := f)" and w = Top and P = 0 and Hs = 0])
    show "\<forall>i. length (drained l') \<le> i \<and> i < length (accepted l') \<longrightarrow>
             (m(0 := f)) (of_nat (i mod 65536)) = accepted l' ! i"
      by (simp add: l'_def)
  qed (simp_all add: s'_def s0_def sel l'_def bin_image_def csv_text_def)
  then show ?thesis using ex by (auto simp add: l'_def)
qed

lemma exec_good:
  assumes ok: "host_ok e" and good: "c = (init_state, empty_log) \<or> session_inv e c"
  shows "\<exists>c'. exec e ev c = Inr c' \<and> (c' = (init_state, empty_log) \<or> session_inv e c')"
proof (cases ev)
  case (Push sid nw a b c' d)
  show ?thesis
  proof (cases "c = (init_state, empty_log)")
    case True
    then show ?thesis using first_push [OF ok, of sid nw a b c' d] Push by auto
  next
    case False
    then have "session_inv e (fst c, snd c)" using good by simp
    from push_session [OF this, of sid nw a b c' d] show ?thesis using Push by auto
  qed
next
  case (Writer i)
  show ?thesis
  proof (cases "c = (init_state, empty_log)")
    case True
    then show ?thesis using Writer by (simp add: init_state_def)
  next
    case False
    then have "session_inv e (fst c, snd c)" using good by simp
    from writer_session [OF this, of i 0] show ?thesis using Writer by auto
  qed
qed

lemma run_good:
  assumes ok: "host_ok e"
  shows "c = (init_state, empty_log) \<or> session_inv e c \<Longrightarrow>
         \<exists>c'. run e evs c = Inr c' \<and> (c' = (init_state, empty_log) \<or> session_inv e c')"
proof (induction evs arbitrary: c)
  case Nil
  then show ?case by simp
next
  case (Cons ev evs)
  from exec_good [OF ok Cons.prems, of ev] obtain c1 where
    c1: "exec e ev c = Inr c1" "c1 = (init_state, empty_log) \<or> session_inv e c1" by blast
  from Cons.IH [OF c1(2)] show ?case using c1(1) by simp
qed

lemma run_append:
  "run e (xs @ ys) c = (case run e xs c of Inl err \<Rightarrow> Inl err | Inr c' \<Rightarrow> run e ys c')"
  by (induction xs arbitrary: c) (simp_all split: sum.split)

lemma exec_drained_grows:
  "exec e ev c = Inr c' \<Longrightarrow> length (drained (snd c)) \<le> length (drained (snd c'))"
proof (cases ev)
  case (Push sid nw a b x d)
  assume "exec e ev c = Inr c'"
  then show ?thesis using Push
    by (cases c) (auto split: sum.splits if_splits)
next
  case (Writer i)
  assume "exec e ev c = Inr c'"
  then show ?thesis using Writer
    by (cases c) (auto simp add: log_step_def split: sum.splits if_splits)
qed

text \<open>
  Every event keeps the invariant; a push leaves the measure as it is, and a step of the
  writer lowers it as long as the first \<open>K\<close> accepted frames are not all read.
\<close>

lemma step_measure:
  assumes inv: "session_inv e c" and K: "K \<le> length (accepted (snd c))"
  shows "\<exists>c1. exec e ev c = Inr c1 \<and> session_inv e c1 \<and>
           (\<exists>xs. accepted (snd c1) = accepted (snd c) @ xs) \<and>
           length (drained (snd c)) \<le> length (drained (snd c1)) \<and>
           (length (drained (snd c)) < K \<longrightarrow>
              (if ev = Writer 0 then pending K c1 < pending K c
               else pending K c1 = pending K c))"
proof -
  have inv': "session_inv e (fst c, snd c)" using inv by simp
  show ?thesis
  proof (cases ev)
    case (Push sid nw a b x d)
    have "\<exists>c1. exec e ev c = Inr c1 \<and> session_inv e c1 \<and>
            drained (snd c1) = drained (snd c) \<and> writers (fst c1) = writers (fst c) \<and>
            (\<exists>xs. accepted (snd c1) = accepted (snd c) @ xs)"
      using push_session [OF inv', of sid nw a b x d] Push by simp
    then obtain c1 where
      c1: "exec e ev c = Inr c1" "session_inv e c1" "drained (snd c1) = drained (snd c)"
          "writers (fst c1) = writers (fst c)"
          "\<exists>xs. accepted (snd c1) = accepted (snd c) @ xs"
      by blast
    have "pending K c1 = pending K c" using c1(3,4) by (simp add: pending_def)
    then show ?thesis using c1 Push by auto
  next
    case (Writer i)
    have "\<exists>c1. exec e ev c = Inr c1 \<and> session_inv e c1 \<and>
            accepted (snd c1) = accepted (snd c) \<and>
            (i = 0 \<and> length (drained (snd c)) < K \<and> K \<le> length (accepted (snd c)) \<longrightarrow>
               pending K c1 < pending K c)"
      using writer_session [OF inv', of i K] Writer by simp
    then obtain c1 where
      c1: "exec e ev c = Inr c1" "session_inv e c1" "accepted (snd c1) = accepted (snd c)"
          "i = 0 \<and> length (drained (snd c)) < K \<and> K \<le> length (accepted (snd c)) \<longrightarrow>
             pending K c1 < pending K c"
      by blast
    have grows: "length (drained (snd c)) \<le> length (drained (snd c1))"
      using c1(1) by (rule exec_drained_grows)
    show ?thesis
    proof (cases "i = 0")
      case True
      then show ?thesis using c1 grows K Writer by auto
    next
      case False
      from inv' obtain w where "writers (fst c) = [w]" by (rule session_invD)
      then have "exec e ev c = Inr c" using False Writer by (cases c) simp
      then have "c1 = c" using c1(1) by simp
      then show ?thesis using c1 False Writer by auto
    qed
  qed
qed

text \<open>
  Whatever the simulator does in between, once the writer has taken
  \<open>pending K\<close> steps it has read the first \<open>K\<close> accepted frames.
\<close>

lemma writer_reaches:
  "session_inv e c \<Longrightarrow> K \<le> length (accepted (snd c)) \<Longrightarrow>
   K \<le> length (drained (snd c)) \<or> pending K c \<le> count_list evs (Writer 0) \<Longrightarrow>
   \<exists>c'. run e evs c = Inr c' \<and> session_inv e c' \<and> K \<le> length (drained (snd c')) \<and>
        (\<exists>xs. accepted (snd c') = accepted (snd c) @ xs)"
proof (induction evs arbitrary: c)
  case Nil
  from Nil.prems(3) have "K \<le> length (drained (snd c))"
    by (auto simp add: pending_def)
  then show ?case using Nil.prems(1) by simp
next
  case (Cons ev evs)
  from step_measure [OF Cons.prems(1,2), of ev] obtain c1 xs where
    c1: "exec e ev c = Inr c1" "session_inv e c1"
        "accepted (snd c1) = accepted (snd c) @ xs"
        "length (drained (snd c)) \<le> length (drained (snd c1))"
        "length (drained (snd c)) < K \<longrightarrow>
              (if ev = Writer 0 then pending K c1 < pending K c
               else pending K c1 = pending K c)"
    by blast
  have K1: "K \<le> length (accepted (snd c1))" using Cons.prems(2) c1(3) by simp
  have "K \<le> length (drained (snd c1)) \<or> pending K c1 \<le> count_list evs (Writer 0)"
  proof (cases "K \<le> length (drained (snd c))")
    case True
    then show ?thesis using c1(4) by simp
  next
    case False
    then have lt: "length (drained (snd c)) < K" by simp
    then have le: "pending K c \<le> count_list (ev # evs) (Writer 0)"
      using Cons.prems(3) by simp
    show ?thesis
    proof (cases "ev = Writer 0")
      case True
      then have "pending K c1 < pending K c" using c1(5) lt by simp
      then show ?thesis using le True by simp
    next
      case False
      then have "pending K c1 = pending K c" using c1(5) lt by simp
      then show ?thesis using le False by simp
    qed
  qed
  from Cons.IH [OF c1(2) K1 this] obtain c' ys where
    c': "run e evs c1 = Inr c'" "session_inv e c'" "K \<le> length (drained (snd c'))"
        "accepted (snd c') = accepted (snd c1) @ ys"
    by blast
  have "run e (ev # evs) c = Inr c'" using c1(1) c'(1) by simp
  moreover have "accepted (snd c') = accepted (snd c) @ (xs @ ys)" using c1(3) c'(4) by simp
  ultimately show ?case using c'(2,3) by blast
qed

lemma pending_bound:
  "pending K c \<le> 3 * (K - length (drained (snd c))) + 2"
  by (simp add: pending_def split: list.split writer.split)

section \<open>Rounds of one push and one pass\<close>

lemma push_when_caught_up:
  assumes inv: "session_inv e (s, l)" and top: "writers s = [Top]"
    and all: "drained l = accepted l"
  shows "\<exists>s'. exec e (Push sid 4 a b c d) (s, l) =
                 Inr (s', l\<lparr> accepted := accepted l @ [\<lparr> w_0 = a, w_1 = b, w_2 = c, w_3 = d \<rparr>] \<rparr>) \<and>
              writers s' = [Top] \<and>
              session_inv e (s', l\<lparr> accepted := accepted l @ [\<lparr> w_0 = a, w_1 = b, w_2 = c, w_3 = d \<rparr>] \<rparr>)"
proof -
  from inv obtain r w P Hs where
    ring: "ring s = Some r" and wr0: "writers s = [w]"
    and PD: "P \<le> length (drained l)"
    and cap: "length (accepted l) - P \<le> 65535"
    and tl: "unat (tail s) = P mod 65536"
    and hd: "unat (head s) = length (accepted l) mod 65536"
    and wst0: "case w of Top \<Rightarrow> P = length (drained l)
         | Drain t h \<Rightarrow> unat t = length (drained l) mod 65536 \<and> unat h = Hs mod 65536
         | Exited \<Rightarrow> False"
    by (rule session_invD)
  have "w = Top" using wr0 top by simp
  then have P: "P = length (accepted l)" using wst0 all by simp
  have "unat (rb_used (head s) (tail s)) = length (accepted l) - P"
    using _ cap hd tl by (rule used_counters) (simp add: P)
  then have free: "rb_free (head s) (tail s) \<noteq> 0" by (simp add: rb_free_zero P)
  have hlt: "head s < RB_SIZE" using hd by (simp add: lt_rb_size)
  define f where "f = \<lparr> w_0 = a, w_1 = b, w_2 = c, w_3 = d \<rparr>"
  define s' where "s' = s\<lparr> ring := Some (r(head s := f)),
                            head := (head s + 1) AND (RB_SIZE - 1) \<rparr>"
  have ex: "exec e (Push sid 4 a b c d) (s, l) = Inr (s', l\<lparr> accepted := accepted l @ [f] \<rparr>)"
    using ring free hlt by (simp add: sniffer_dpi_push_def s'_def f_def Let_def)
  from push_session [OF inv, of sid 4 a b c d]
  have "session_inv e (s', l\<lparr> accepted := accepted l @ [f] \<rparr>)" using ex by auto
  moreover have "writers s' = [Top]" using top by (simp add: s'_def)
  ultimately show ?thesis using ex unfolding f_def by blast
qed

lemma first_push_accepted:
  assumes ok: "host_ok e"
  shows "\<exists>s'. exec e (Push sid 4 a b c d) (init_state, empty_log) =
                 Inr (s', \<lparr> accepted = [\<lparr> w_0 = a, w_1 = b, w_2 = c, w_3 = d \<rparr>], drained = [], published = 0, passes = 0 \<rparr>) \<and>
              writers s' = [Top] \<and>
              session_inv e (s', \<lparr> accepted = [\<lparr> w_0 = a, w_1 = b, w_2 = c, w_3 = d \<rparr>], drained = [], published = 0, passes = 0 \<rparr>)"
proof -
  have nr: "\<not> running init_state" by (simp add: init_state_def)
  from start_consumer_ok [OF ok nr] obtain m where
    st: "start_consumer e init_state =
             Inr (init_state\<lparr> ring := Some m, fbin := Some [], fcsv := Some csv_header,
                       disk := (disk init_state)(bin_path := Some [], csv_path := Some []),
                       print_enable := read_print_enable e (print_enable init_state),
                       print_every := read_print_every e (print_every init_state),
                       running := True, writers := writers init_state @ [Top] \<rparr>)"
    by blast
  define f where "f = \<lparr> w_0 = a, w_1 = b, w_2 = c, w_3 = d \<rparr>"
  define s0 where "s0 = init_state\<lparr> ring := Some m, fbin := Some [], fcsv := Some csv_header,
                       disk := (disk init_state)(bin_path := Some [], csv_path := Some []),
                       print_enable := read_print_enable e (print_enable init_state),
                       print_every := read_print_every e (print_every init_state),
                       running := True, writers := writers init_state @ [Top] \<rparr>"
  define s' where "s' = s0\<lparr> ring := Some (m(0 := f)), head := 1 \<rparr>"
  have sel: "ring init_state = None" "head init_state = 0" "tail init_state = 0"
    "writers init_state = []"
    by (simp_all add: init_state_def)
  have sel0: "ring s0 = Some m" "head s0 = 0" "tail s0 = 0"
    by (simp_all add: s0_def sel)
  have free: "rb_free 0 0 \<noteq> 0" by (simp add: rb_free_def rb_used_def RB_SIZE_def)
  have "sniffer_dpi_push e sid 4 a b c d init_state = Inr (1, s')"
    using free st [folded s0_def]
    by (simp add: sniffer_dpi_push_def sel sel0 Let_def s'_def f_def RB_SIZE_def)
  then have ex: "exec e (Push sid 4 a b c d) (init_state, empty_log) =
                   Inr (s', \<lparr> accepted = [f], drained = [], published = 0, passes = 0 \<rparr>)"
    by (simp add: f_def empty_log_def)
  from first_push [OF ok, of sid 4 a b c d]
  have "(s', \<lparr> accepted = [f], drained = [], published = 0, passes = 0 \<rparr>) = (init_state, empty_log) \<or>
        session_inv e (s', \<lparr> accepted = [f], drained = [], published = 0, passes = 0 \<rparr>)"
    using ex by auto
  then have "session_inv e (s', \<lparr> accepted = [f], drained = [], published = 0, passes = 0 \<rparr>)"
    by (simp add: empty_log_def)
  moreover have "writers s' = [Top]" by (simp add: s'_def s0_def sel)
  ultimately show ?thesis using ex unfolding f_def by blast
qed

lemma drain_one:
  assumes inv: "session_inv e (s, l)" and top: "writers s = [Top]"
    and one: "length (accepted l) = length (drained l) + 1"
  shows "\<exists>s' l'. run e [Writer 0, Writer 0, Writer 0] (s, l) = Inr (s', l') \<and>
              writers s' = [Top] \<and> session_inv e (s', l') \<and>
              accepted l' = accepted l \<and> drained l' = accepted l"
proof -
  from inv obtain r w P Hs where
    ring: "ring s = Some r" and wr0: "writers s = [w]" and run: "running s"
    and tl: "unat (tail s) = P mod 65536"
    and hd: "unat (head s) = length (accepted l) mod 65536"
    and wst0: "case w of Top \<Rightarrow> P = length (drained l)
         | Drain t h \<Rightarrow> unat t = length (drained l) mod 65536 \<and> unat h = Hs mod 65536
         | Exited \<Rightarrow> False"
    and pre: "drained l = take (length (drained l)) (accepted l)"
    and slots: "\<forall>i. length (drained l) \<le> i \<and> i < length (accepted l) \<longrightarrow>
             r (of_nat (i mod 65536)) = accepted l ! i"
    and fb: "fbin s = Some (bin_image (endianness e) (drained l))"
    and fc: "fcsv s = Some (csv_text (drained l))"
    and pv: "print_every s = read_print_every e 1"
    by (rule session_invD)
  have "w = Top" using wr0 top by simp
  then have P: "P = length (drained l)" using wst0 by simp
  define t where "t = tail s"
  define h where "h = head s"
  have ut: "unat t = length (drained l) mod 65536" using tl P by (simp add: t_def)
  have uh: "unat h = (length (drained l) + 1) mod 65536" using hd one by (simp add: h_def)
  have "unat t \<noteq> unat h"
  proof
    assume "unat t = unat h"
    then have "length (drained l) mod 65536 = (length (drained l) + 1) mod 65536"
      using ut uh by simp
    then have "length (drained l) = length (drained l) + 1"
      by (rule same_slot_same_count [rotated 2]) simp_all
    then show False by simp
  qed
  then have ne: "t \<noteq> h" by auto
  have next_t: "(t + 1) AND (RB_SIZE - 1) = h"
  proof -
    have "unat ((t + 1) AND (RB_SIZE - 1)) = unat h"
      using ut uh by (simp add: unat_next mod_Suc_eq)
    then show ?thesis by (simp only: word_unat_eq_iff)
  qed
  \<comment> \<open>first step: load tail and head\<close>
  define s1 where "s1 = s\<lparr> writers := [Drain t h] \<rparr>"
  have ex1: "exec e (Writer 0) (s, l) = Inr (s1, l)"
    using top run
    by (simp add: writer_step_def reads_slot_def log_step_def ends_pass_def s1_def t_def h_def)
  have inv1: "session_inv e (s1, l)"
    using writer_session [OF inv, of 0] ex1 by auto
  \<comment> \<open>second step: the one frame\<close>
  define f where "f = accepted l ! length (drained l)"
  have rt: "r t = f"
  proof -
    have "of_nat (length (drained l) mod 65536) = t" using ut by (rule slot_of_counter)
    then show ?thesis using slots one by (auto simp add: f_def)
  qed
  have tlt: "t < RB_SIZE" using ut by (simp add: lt_rb_size)
  have pv0: "print_every s1 \<noteq> 0" by (simp add: s1_def pv read_print_every_nonzero)
  have fb1: "fbin s1 = Some (bin_image (endianness e) (drained l))" using fb by (simp add: s1_def)
  have fc1: "fcsv s1 = Some (csv_text (drained l))" using fc by (simp add: s1_def)
  from emit_frame_ok [OF fb1 fc1 pv0, of e f] obtain s1' where
    em: "emit_frame e f s1 = Inr s1'" and ws1: "writers s1' = [Drain t h]"
    by (simp add: s1_def)
  define s2 where "s2 = s1'\<lparr> writers := [Drain h h] \<rparr>"
  have ws: "writer_step e (Drain t h) s1 = Inr (Drain h h, s1')"
    using ne ring tlt rt em next_t by (simp add: writer_step_def s1_def)
  have rs: "reads_slot (Drain t h) s1 = [f]"
    using ne ring rt by (simp add: reads_slot_def s1_def)
  have ex2: "exec e (Writer 0) (s1, l) = Inr (s2, l\<lparr> drained := drained l @ [f] \<rparr>)"
    using ws rs ws1 ne by (simp add: log_step_def ends_pass_def s2_def s1_def)
  have all: "drained l @ [f] = accepted l"
  proof -
    have "take (Suc (length (drained l))) (accepted l) = take (length (drained l)) (accepted l) @ [f]"
      unfolding f_def by (rule take_Suc_conv_app_nth) (simp add: one)
    then show ?thesis using pre one by simp
  qed
  have inv2: "session_inv e (s2, l\<lparr> drained := accepted l \<rparr>)"
    using writer_session [OF inv1, of 0] ex2 all by auto
  \<comment> \<open>third step: publish tail\<close>
  define s3 where "s3 = (fflush_all (s2\<lparr> tail := h \<rparr>))\<lparr> writers := [Top] \<rparr>"
  define l3 where "l3 = l\<lparr> drained := accepted l, published := length (accepted l),
                            passes := passes l + 1 \<rparr>"
  have ex3: "exec e (Writer 0) (s2, l\<lparr> drained := accepted l \<rparr>) = Inr (s3, l3)"
    by (simp add: writer_step_def log_step_def ends_pass_def s3_def s2_def l3_def
        fflush_all_def)
  have inv3: "session_inv e (s3, l3)"
    using writer_session [OF inv2, of 0] ex3 by auto
  have "run e [Writer 0, Writer 0, Writer 0] (s, l) = Inr (s3, l3)"
    using ex1 ex2 ex3 all by simp
  moreover have "writers s3 = [Top]" by (simp add: s3_def)
  moreover have "accepted l3 = accepted l" "drained l3 = accepted l" by (simp_all add: l3_def)
  ultimately show ?thesis using inv3 by blast
qed

lemma one_round:
  assumes ok: "host_ok e"
    and E: "c = (init_state, empty_log) \<or>
            session_inv e c \<and> writers (fst c) = [Top] \<and> drained (snd c) = accepted (snd c)"
  shows "\<exists>c'. run e push_drain_round c = Inr c' \<and> session_inv e c' \<and> writers (fst c') = [Top] \<and>
              drained (snd c') = accepted (snd c') \<and>
              length (drained (snd c')) = length (drained (snd c)) + 1"
proof -
  have "\<exists>s1 l1. exec e (Push 0 4 0 0 0 0) c = Inr (s1, l1) \<and> writers s1 = [Top] \<and>
          session_inv e (s1, l1) \<and> length (accepted l1) = length (drained l1) + 1 \<and>
          length (drained l1) = length (drained (snd c))"
  proof (cases "c = (init_state, empty_log)")
    case True
    from first_push_accepted [OF ok, of 0 0 0 0 0] show ?thesis
      using True by (auto simp add: empty_log_def)
  next
    case False
    then have R: "session_inv e (fst c, snd c)" "writers (fst c) = [Top]"
      "drained (snd c) = accepted (snd c)" using E by simp_all
    from push_when_caught_up [OF R, of 0 0 0 0 0] show ?thesis
      using R(3) by auto
  qed
  then obtain s1 l1 where
    p: "exec e (Push 0 4 0 0 0 0) c = Inr (s1, l1)" "writers s1 = [Top]"
       "session_inv e (s1, l1)" "length (accepted l1) = length (drained l1) + 1"
       "length (drained l1) = length (drained (snd c))"
    by blast
  from drain_one [OF p(3) p(2) p(4)] obtain s' l' where
    d: "run e [Writer 0, Writer 0, Writer 0] (s1, l1) = Inr (s', l')"
       "writers s' = [Top]" "session_inv e (s', l')"
       "accepted l' = accepted l1" "drained l' = accepted l1"
    by blast
  have "run e push_drain_round c = Inr (s', l')"
    using p(1) d(1) by (simp add: push_drain_round_def)
  then show ?thesis using d(2,3,4,5) p(4,5) by auto
qed

lemma rounds:
  assumes ok: "host_ok e"
  shows "c = (init_state, empty_log) \<or>
           session_inv e c \<and> writers (fst c) = [Top] \<and> drained (snd c) = accepted (snd c) \<Longrightarrow>
         \<exists>c'. run e (concat (replicate k push_drain_round)) c = Inr c' \<and>
              (c' = (init_state, empty_log) \<or>
                 session_inv e c' \<and> writers (fst c') = [Top] \<and>
                 drained (snd c') = accepted (snd c')) \<and>
              length (drained (snd c')) = length (drained (snd c)) + k"
proof (induction k arbitrary: c)
  case 0
  then show ?case by simp
next
  case (Suc k)
  from one_round [OF ok Suc.prems] obtain c1 where
    c1: "run e push_drain_round c = Inr c1" "session_inv e c1" "writers (fst c1) = [Top]"
        "drained (snd c1) = accepted (snd c1)"
        "length (drained (snd c1)) = length (drained (snd c)) + 1"
    by blast
  then have "c1 = (init_state, empty_log) \<or>
           session_inv e c1 \<and> writers (fst c1) = [Top] \<and> drained (snd c1) = accepted (snd c1)"
    by simp
  from Suc.IH [OF this] obtain c' where
    c': "run e (concat (replicate k push_drain_round)) c1 = Inr c'"
        "c' = (init_state, empty_log) \<or>
                 session_inv e c' \<and> writers (fst c') = [Top] \<and>
                 drained (snd c') = accepted (snd c')"
        "length (drained (snd c')) = length (drained (snd c1)) + k"
    by blast
  have "run e (concat (replicate (Suc k) push_drain_round)) c = Inr c'"
    using c1(1) c'(1) by (simp add: run_append)
  then show ?case using c'(2,3) c1(5) by auto
qed

section \<open>Runs of a session\<close>

lemmas eval_defs =
  sniffer_dpi_push_def start_consumer_def writer_step_def emit_frame_def fflush_all_def
  flush_to_def reads_slot_def log_step_def ends_pass_def read_print_enable_def read_print_every_def
  rb_free_def rb_used_def RB_SIZE_def Let_def init_state_def empty_log_def
  bin_path_def csv_path_def

lemma exec_drained_bound:
  "exec e ev c = Inr c' \<Longrightarrow> length (drained (snd c')) \<le> length (drained (snd c)) + 1"
proof (cases ev)
  case (Push sid nw a b x d)
  assume "exec e ev c = Inr c'"
  then show ?thesis using Push
    by (cases c) (auto split: sum.splits if_splits)
next
  case (Writer i)
  assume "exec e ev c = Inr c'"
  then show ?thesis using Writer
    by (cases c)
      (auto simp add: reads_slot_def log_step_def split: sum.splits if_splits writer.splits option.splits)
qed

lemma run_drained_bound:
  "run e evs c = Inr c' \<Longrightarrow> length (drained (snd c')) \<le> length (drained (snd c)) + length evs"
proof (induction evs arbitrary: c)
  case Nil
  then show ?case by simp
next
  case (Cons ev evs)
  from Cons.prems obtain c1 where c1: "exec e ev c = Inr c1" "run e evs c1 = Inr c'"
    by (auto split: sum.splits)
  from exec_drained_bound [OF c1(1)] Cons.IH [OF c1(2)] show ?case by simp
qed

lemma every_nth_Nil [simp]: "every_nth P [] = []"
  by (simp add: every_nth_def)

lemma session_inv_sinks:
  assumes "session_inv e c"
  shows "drained (snd c) = take (length (drained (snd c))) (accepted (snd c))"
    and "fbin (fst c) = Some (bin_image (endianness e) (drained (snd c)))"
    and "fcsv (fst c) = Some (csv_text (drained (snd c)))"
    and "print_enable (fst c) = read_print_enable e False"
    and "print_every (fst c) = read_print_every e 1"
    and "stderr_out (fst c) =
          (if print_enable (fst c)
           then console_text (print_every (fst c)) 0 (drained (snd c)) else [])"
  using assms unfolding session_inv_def by blast+

lemma session_inv_files:
  assumes "session_inv e c"
  shows "published (snd c) \<le> length (drained (snd c))"
    and "length (accepted (snd c)) - published (snd c) \<le> 65535"
    and "unat (rb_used (head (fst c)) (tail (fst c))) =
           length (accepted (snd c)) - published (snd c)"
    and "writers (fst c) = [Top] \<longrightarrow> published (snd c) = length (drained (snd c))"
    and "passes (snd c) = 0 \<longrightarrow> published (snd c) = 0"
    and "disk (fst c) bin_path =
           Some (bin_image (endianness e) (take (published (snd c)) (drained (snd c))))"
    and "disk (fst c) csv_path =
           Some (if passes (snd c) = 0 then []
                 else csv_text (take (published (snd c)) (drained (snd c))))"
    and "writers (fst c) \<noteq> []"
proof -
  obtain s l where c: "c = (s, l)" by (cases c)
  from assms [unfolded c] obtain r w P Hs where
    wr: "writers s = [w]"
    and PD: "P \<le> length (drained l)" and DH: "length (drained l) \<le> Hs"
    and HA: "Hs \<le> length (accepted l)" and cap: "length (accepted l) - P \<le> 65535"
    and tl: "unat (tail s) = P mod 65536"
    and hd: "unat (head s) = length (accepted l) mod 65536"
    and wst: "case w of Top \<Rightarrow> P = length (drained l)
         | Drain t h \<Rightarrow> unat t = length (drained l) mod 65536 \<and> unat h = Hs mod 65536
         | Exited \<Rightarrow> False"
    and pub: "published l = P"
    and pz: "passes l = 0 \<longrightarrow> P = 0"
    and dkb: "disk s bin_path = Some (bin_image (endianness e) (take P (drained l)))"
    and dkc: "disk s csv_path =
          Some (if passes l = 0 then [] else csv_text (take P (drained l)))"
    by (rule session_invD)
  have PA: "P \<le> length (accepted l)" using PD DH HA by simp
  have used: "unat (rb_used (head s) (tail s)) = length (accepted l) - P"
    using PA cap hd tl by (rule used_counters)
  show "published (snd c) \<le> length (drained (snd c))" using PD pub c by simp
  show "length (accepted (snd c)) - published (snd c) \<le> 65535" using cap pub c by simp
  show "unat (rb_used (head (fst c)) (tail (fst c))) =
           length (accepted (snd c)) - published (snd c)" using used pub c by simp
  show "writers (fst c) = [Top] \<longrightarrow> published (snd c) = length (drained (snd c))"
    using wr wst pub c by auto
  show "passes (snd c) = 0 \<longrightarrow> published (snd c) = 0" using pz pub c by simp
  show "disk (fst c) bin_path =
           Some (bin_image (endianness e) (take (published (snd c)) (drained (snd c))))"
    using dkb pub c by simp
  show "disk (fst c) csv_path =
           Some (if passes (snd c) = 0 then []
                 else csv_text (take (published (snd c)) (drained (snd c))))"
    using dkc pub c by simp
  show "writers (fst c) \<noteq> []" using wr c by simp
qed

text \<open>
  C1. On a host that grants the session its resources, every interleaving of push calls
  and writer steps runs without error, and the frames the writer has read are at every
  moment the first frames accepted, in the order of acceptance, each once.

  No frame is lost under capacity: the ring holds \<open>A - P\<close> frames for the producer,
  where \<open>A\<close> is the number of frames accepted and \<open>P\<close> the number of frames the
  writer had read when it last stored \<open>tail\<close>; this is what \<open>rb_used\<close> computes from
  \<open>head\<close> and \<open>tail\<close>, it never exceeds 65535, and \<open>P\<close> is the number of frames
  read whenever the writer is between two passes. At every moment a push of four words
  is accepted, for whatever words, if and only if \<open>A - P < 65535\<close>; an accepted push
  adds its frame at the end of the accepted frames and a rejected one changes nothing
  in the log.

  From every moment on, however the run continues, as soon as the writer has taken three
  steps for every frame in flight and two more, it has read all frames accepted up to
  that moment, and both sinks hold their records, in order, before those of later frames.
\<close>

theorem fifo_no_loss:
  assumes "host_ok e"
  shows "\<exists>s l. run e evs (init_state, empty_log) = Inr (s, l) \<and>
           drained l = take (length (drained l)) (accepted l) \<and>
           published l \<le> length (drained l) \<and>
           (writers s = [] \<or> writers s = [Top] \<longrightarrow> published l = length (drained l)) \<and>
           unat (rb_used (head s) (tail s)) = length (accepted l) - published l \<and>
           length (accepted l) - published l \<le> 65535 \<and>
           (\<forall>sid w0 w1 w2 w3. \<exists>s2.
              run e (evs @ [Push sid 4 w0 w1 w2 w3]) (init_state, empty_log) =
                Inr (s2, if length (accepted l) - published l < 65535
                         then l\<lparr> accepted := accepted l @
                                 [\<lparr> w_0 = w0, w_1 = w1, w_2 = w2, w_3 = w3 \<rparr>] \<rparr>
                         else l)) \<and>
           (\<forall>evs'. 3 * (length (accepted l) - length (drained l)) + 2
                     \<le> count_list evs' (Writer 0) \<longrightarrow>
              (\<exists>s' l' rest.
                 run e (evs @ evs') (init_state, empty_log) = Inr (s', l') \<and>
                 drained l' = accepted l @ rest \<and>
                 (s' = init_state \<or>
                  fbin s' = Some (bin_image (endianness e) (accepted l @ rest)) \<and>
                  fcsv s' = Some (csv_text (accepted l @ rest)))))"
proof -
  from run_good [OF assms, of "(init_state, empty_log)" evs] obtain c where
    c: "run e evs (init_state, empty_log) = Inr c"
       "c = (init_state, empty_log) \<or> session_inv e c" by blast
  obtain s l where sl: "c = (s, l)" by (cases c)
  have pre: "drained l = take (length (drained l)) (accepted l)"
    using c(2) session_inv_sinks(1) [of e c] sl by (auto simp add: empty_log_def)
  have pd: "published l \<le> length (drained l)"
    using c(2) session_inv_files(1) [of e c] sl by (auto simp add: empty_log_def)
  have idle: "writers s = [] \<or> writers s = [Top] \<longrightarrow> published l = length (drained l)"
    using c(2) session_inv_files(4,8) [of e c] sl by (auto simp add: empty_log_def)
  have used: "unat (rb_used (head s) (tail s)) = length (accepted l) - published l"
    using c(2) session_inv_files(3) [of e c] sl
    by (auto simp add: empty_log_def init_state_def rb_used_def)
  have cap: "length (accepted l) - published l \<le> 65535"
    using c(2) session_inv_files(2) [of e c] sl by (auto simp add: empty_log_def)
  have push: "\<exists>s2. run e (evs @ [Push sid 4 w0 w1 w2 w3]) (init_state, empty_log) =
                Inr (s2, if length (accepted l) - published l < 65535
                         then l\<lparr> accepted := accepted l @
                                 [\<lparr> w_0 = w0, w_1 = w1, w_2 = w2, w_3 = w3 \<rparr>] \<rparr>
                         else l)" for sid w0 w1 w2 w3
  proof -
    have r: "run e (evs @ [Push sid 4 w0 w1 w2 w3]) (init_state, empty_log) =
             run e [Push sid 4 w0 w1 w2 w3] (s, l)"
      using c(1) sl by (simp add: run_append)
    have "\<exists>s2. exec e (Push sid 4 w0 w1 w2 w3) (s, l) =
                Inr (s2, if length (accepted l) - published l < 65535
                         then l\<lparr> accepted := accepted l @
                                 [\<lparr> w_0 = w0, w_1 = w1, w_2 = w2, w_3 = w3 \<rparr>] \<rparr>
                         else l)"
    proof (cases "c = (init_state, empty_log)")
      case True
      from first_push_accepted [OF assms, of sid w0 w1 w2 w3] show ?thesis
        using True sl by (auto simp add: empty_log_def)
    next
      case False
      then have inv: "session_inv e (s, l)" using c(2) sl by auto
      from push_decision [OF inv, of sid 4 w0 w1 w2 w3] obtain c' where
        c': "exec e (Push sid 4 w0 w1 w2 w3) (s, l) = Inr c'"
            "snd c' = (if length (accepted l) - published l < 65535
                       then l\<lparr> accepted := accepted l @
                               [\<lparr> w_0 = w0, w_1 = w1, w_2 = w2, w_3 = w3 \<rparr>] \<rparr>
                       else l)"
        by blast
      have "exec e (Push sid 4 w0 w1 w2 w3) (s, l) = Inr (fst c', snd c')"
        using c'(1) by simp
      then show ?thesis unfolding c'(2) by (rule exI)
    qed
    then obtain s2 where
      "exec e (Push sid 4 w0 w1 w2 w3) (s, l) =
                Inr (s2, if length (accepted l) - published l < 65535
                         then l\<lparr> accepted := accepted l @
                                 [\<lparr> w_0 = w0, w_1 = w1, w_2 = w2, w_3 = w3 \<rparr>] \<rparr>
                         else l)" by blast
    then have "run e [Push sid 4 w0 w1 w2 w3] (s, l) =
                Inr (s2, if length (accepted l) - published l < 65535
                         then l\<lparr> accepted := accepted l @
                                 [\<lparr> w_0 = w0, w_1 = w1, w_2 = w2, w_3 = w3 \<rparr>] \<rparr>
                         else l)" by simp
    then show ?thesis unfolding r by (rule exI)
  qed
  have later: "\<exists>s' l' rest.
                 run e (evs @ evs') (init_state, empty_log) = Inr (s', l') \<and>
                 drained l' = accepted l @ rest \<and>
                 (s' = init_state \<or>
                  fbin s' = Some (bin_image (endianness e) (accepted l @ rest)) \<and>
                  fcsv s' = Some (csv_text (accepted l @ rest)))"
    if enough: "3 * (length (accepted l) - length (drained l)) + 2
                  \<le> count_list evs' (Writer 0)" for evs'
  proof -
    from run_good [OF assms c(2), of evs'] obtain c' where
      c': "run e evs' c = Inr c'" "c' = (init_state, empty_log) \<or> session_inv e c'"
      by blast
    have r: "run e (evs @ evs') (init_state, empty_log) = Inr (fst c', snd c')"
      using c(1) c'(1) by (simp add: run_append)
    have sinks: "fst c' = init_state \<or>
                 fbin (fst c') = Some (bin_image (endianness e) (drained (snd c'))) \<and>
                 fcsv (fst c') = Some (csv_text (drained (snd c')))"
      using c'(2) session_inv_sinks(2,3) [of e c'] by auto
    have "\<exists>rest. drained (snd c') = accepted l @ rest"
    proof (cases "c = (init_state, empty_log)")
      case True
      then show ?thesis using sl by (simp add: empty_log_def)
    next
      case False
      then have inv: "session_inv e c" using c(2) by simp
      have "pending (length (accepted (snd c))) c \<le> count_list evs' (Writer 0)"
        using pending_bound [of "length (accepted (snd c))" c] enough sl by simp
      then have "length (accepted (snd c)) \<le> length (drained (snd c)) \<or>
                 pending (length (accepted (snd c))) c \<le> count_list evs' (Writer 0)"
        by simp
      from writer_reaches [OF inv _ this] obtain c2 xs where
        c2: "run e evs' c = Inr c2" "session_inv e c2"
            "length (accepted (snd c)) \<le> length (drained (snd c2))"
            "accepted (snd c2) = accepted (snd c) @ xs"
        by auto
      have eq: "c2 = c'" using c2(1) c'(1) by simp
      have "drained (snd c') = take (length (drained (snd c'))) (accepted (snd c) @ xs)"
        using session_inv_sinks(1) [OF c2(2)] c2(4) eq by simp
      also have "\<dots> = accepted (snd c) @
                     take (length (drained (snd c')) - length (accepted (snd c))) xs"
        using c2(3) eq by simp
      finally show ?thesis using sl by auto
    qed
    then obtain rest where rest: "drained (snd c') = accepted l @ rest" by blast
    have "run e (evs @ evs') (init_state, empty_log) = Inr (fst c', snd c') \<and>
          drained (snd c') = accepted l @ rest \<and>
          (fst c' = init_state \<or>
           fbin (fst c') = Some (bin_image (endianness e) (accepted l @ rest)) \<and>
           fcsv (fst c') = Some (csv_text (accepted l @ rest)))"
      using r sinks rest by auto
    then show ?thesis by blast
  qed
  have run0: "run e evs (init_state, empty_log) = Inr (s, l)" using c(1) sl by simp
  have pushes: "\<forall>sid w0 w1 w2 w3. \<exists>s2.
              run e (evs @ [Push sid 4 w0 w1 w2 w3]) (init_state, empty_log) =
                Inr (s2, if length (accepted l) - published l < 65535
                         then l\<lparr> accepted := accepted l @
                                 [\<lparr> w_0 = w0, w_1 = w1, w_2 = w2, w_3 = w3 \<rparr>] \<rparr>
                         else l)"
    using push by blast
  have laters: "\<forall>evs'. 3 * (length (accepted l) - length (drained l)) + 2
                     \<le> count_list evs' (Writer 0) \<longrightarrow>
              (\<exists>s' l' rest.
                 run e (evs @ evs') (init_state, empty_log) = Inr (s', l') \<and>
                 drained l' = accepted l @ rest \<and>
                 (s' = init_state \<or>
                  fbin s' = Some (bin_image (endianness e) (accepted l @ rest)) \<and>
                  fcsv s' = Some (csv_text (accepted l @ rest))))"
    using later by blast
  note all = conjI [OF run0 conjI [OF pre conjI [OF pd conjI [OF idle conjI [OF used
                conjI [OF cap conjI [OF pushes laters]]]]]]]
  show ?thesis by (intro exI) (rule all)
qed

theorem fifo_no_loss_witness:
  "host_ok demo_env \<and>
   (\<exists>s l. run demo_env [Push 0 4 1 2 3 4, Push 0 4 5 6 7 8] (init_state, empty_log) =
            Inr (s, l) \<and>
      writers s = [Top] \<and>
      accepted l = [\<lparr> w_0 = 1, w_1 = 2, w_2 = 3, w_3 = 4 \<rparr>,
                    \<lparr> w_0 = 5, w_1 = 6, w_2 = 7, w_3 = 8 \<rparr>] \<and>
      drained l = [] \<and> published l = 0 \<and>
      unat (rb_used (head s) (tail s)) = 2 \<and>
      (\<exists>s2. run demo_env
               ([Push 0 4 1 2 3 4, Push 0 4 5 6 7 8] @ [Push 0 4 9 10 11 12])
               (init_state, empty_log) =
             Inr (s2, l\<lparr> accepted := [\<lparr> w_0 = 1, w_1 = 2, w_2 = 3, w_3 = 4 \<rparr>,
                                         \<lparr> w_0 = 5, w_1 = 6, w_2 = 7, w_3 = 8 \<rparr>,
                                         \<lparr> w_0 = 9, w_1 = 10, w_2 = 11, w_3 = 12 \<rparr>] \<rparr>)) \<and>
      (\<exists>s' l' rest.
         run demo_env
           ([Push 0 4 1 2 3 4, Push 0 4 5 6 7 8] @
            [Writer 0, Writer 0, Push 0 4 9 10 11 12, Writer 0, Writer 0, Writer 0, Writer 0,
             Writer 0, Writer 0])
           (init_state, empty_log) = Inr (s', l') \<and>
         drained l' = [\<lparr> w_0 = 1, w_1 = 2, w_2 = 3, w_3 = 4 \<rparr>,
                       \<lparr> w_0 = 5, w_1 = 6, w_2 = 7, w_3 = 8 \<rparr>] @ rest \<and>
         (s' = init_state \<or>
          fbin s' = Some (bin_image (endianness demo_env)
                            ([\<lparr> w_0 = 1, w_1 = 2, w_2 = 3, w_3 = 4 \<rparr>,
                              \<lparr> w_0 = 5, w_1 = 6, w_2 = 7, w_3 = 8 \<rparr>] @ rest)) \<and>
          fcsv s' = Some (csv_text ([\<lparr> w_0 = 1, w_1 = 2, w_2 = 3, w_3 = 4 \<rparr>,
                                     \<lparr> w_0 = 5, w_1 = 6, w_2 = 7, w_3 = 8 \<rparr>] @ rest)))))"
proof -
  have h: "host_ok demo_env" by (simp add: host_ok_def demo_env_def)
  define R where
    "R = run demo_env [Push 0 4 1 2 3 4, Push 0 4 5 6 7 8] (init_state, empty_log)"
  define later where
    "later = [Writer 0, Writer 0, Push 0 4 9 10 11 12, Writer 0, Writer 0, Writer 0, Writer 0,
              Writer 0, Writer 0]"
  have "\<exists>s l. R = Inr (s, l) \<and> writers s = [Top] \<and>
      accepted l = [\<lparr> w_0 = 1, w_1 = 2, w_2 = 3, w_3 = 4 \<rparr>,
                    \<lparr> w_0 = 5, w_1 = 6, w_2 = 7, w_3 = 8 \<rparr>] \<and> drained l = []"
    unfolding R_def by (simp add: eval_defs demo_env_def)
  then obtain s0 l0 where
    e: "R = Inr (s0, l0)" "writers s0 = [Top]"
       "accepted l0 = [\<lparr> w_0 = 1, w_1 = 2, w_2 = 3, w_3 = 4 \<rparr>,
                       \<lparr> w_0 = 5, w_1 = 6, w_2 = 7, w_3 = 8 \<rparr>]"
       "drained l0 = []"
    by blast
  from fifo_no_loss [OF h, of "[Push 0 4 1 2 3 4, Push 0 4 5 6 7 8]", folded R_def]
  obtain s l where
    t: "R = Inr (s, l)"
       "writers s = [] \<or> writers s = [Top] \<longrightarrow> published l = length (drained l)"
       "unat (rb_used (head s) (tail s)) = length (accepted l) - published l"
       "\<forall>sid w0 w1 w2 w3. \<exists>s2.
              run demo_env ([Push 0 4 1 2 3 4, Push 0 4 5 6 7 8] @ [Push sid 4 w0 w1 w2 w3])
                (init_state, empty_log) =
                Inr (s2, if length (accepted l) - published l < 65535
                         then l\<lparr> accepted := accepted l @
                                 [\<lparr> w_0 = w0, w_1 = w1, w_2 = w2, w_3 = w3 \<rparr>] \<rparr>
                         else l)"
       "\<forall>evs'. 3 * (length (accepted l) - length (drained l)) + 2
                     \<le> count_list evs' (Writer 0) \<longrightarrow>
              (\<exists>s' l' rest.
                 run demo_env ([Push 0 4 1 2 3 4, Push 0 4 5 6 7 8] @ evs')
                   (init_state, empty_log) = Inr (s', l') \<and>
                 drained l' = accepted l @ rest \<and>
                 (s' = init_state \<or>
                  fbin s' = Some (bin_image (endianness demo_env) (accepted l @ rest)) \<and>
                  fcsv s' = Some (csv_text (accepted l @ rest))))"
    by blast
  have eq: "s0 = s" "l0 = l" using e(1) t(1) by simp_all
  have top: "writers s = [Top]" using e(2) eq by simp
  have acc: "accepted l = [\<lparr> w_0 = 1, w_1 = 2, w_2 = 3, w_3 = 4 \<rparr>,
                           \<lparr> w_0 = 5, w_1 = 6, w_2 = 7, w_3 = 8 \<rparr>]"
    and dr: "drained l = []" using e(3,4) eq by simp_all
  have pub: "published l = 0" using t(2) top dr by simp
  have used: "unat (rb_used (head s) (tail s)) = 2" using t(3) acc pub by simp
  from t(4) obtain s2 where
    "run demo_env ([Push 0 4 1 2 3 4, Push 0 4 5 6 7 8] @ [Push 0 4 9 10 11 12])
       (init_state, empty_log) =
       Inr (s2, if length (accepted l) - published l < 65535
                then l\<lparr> accepted := accepted l @
                        [\<lparr> w_0 = 9, w_1 = 10, w_2 = 11, w_3 = 12 \<rparr>] \<rparr>
                else l)"
    by blast
  then have third:
    "\<exists>s2. run demo_env ([Push 0 4 1 2 3 4, Push 0 4 5 6 7 8] @ [Push 0 4 9 10 11 12])
       (init_state, empty_log) =
       Inr (s2, l\<lparr> accepted := [\<lparr> w_0 = 1, w_1 = 2, w_2 = 3, w_3 = 4 \<rparr>,
                                   \<lparr> w_0 = 5, w_1 = 6, w_2 = 7, w_3 = 8 \<rparr>,
                                   \<lparr> w_0 = 9, w_1 = 10, w_2 = 11, w_3 = 12 \<rparr>] \<rparr>)"
    using acc pub by simp
  have "3 * (length (accepted l) - length (drained l)) + 2 \<le> count_list later (Writer 0)"
    using acc dr by (simp add: later_def)
  with t(5) have
    "\<exists>s' l' rest.
       run demo_env ([Push 0 4 1 2 3 4, Push 0 4 5 6 7 8] @ later)
         (init_state, empty_log) = Inr (s', l') \<and>
       drained l' = accepted l @ rest \<and>
       (s' = init_state \<or>
        fbin s' = Some (bin_image (endianness demo_env) (accepted l @ rest)) \<and>
        fcsv s' = Some (csv_text (accepted l @ rest)))"
    by blast
  then have fin:
    "\<exists>s' l' rest.
       run demo_env ([Push 0 4 1 2 3 4, Push 0 4 5 6 7 8] @
            [Writer 0, Writer 0, Push 0 4 9 10 11 12, Writer 0, Writer 0, Writer 0, Writer 0,
             Writer 0, Writer 0])
         (init_state, empty_log) = Inr (s', l') \<and>
       drained l' = [\<lparr> w_0 = 1, w_1 = 2, w_2 = 3, w_3 = 4 \<rparr>,
                     \<lparr> w_0 = 5, w_1 = 6, w_2 = 7, w_3 = 8 \<rparr>] @ rest \<and>
       (s' = init_state \<or>
        fbin s' = Some (bin_image (endianness demo_env)
                            ([\<lparr> w_0 = 1, w_1 = 2, w_2 = 3, w_3 = 4 \<rparr>,
                              \<lparr> w_0 = 5, w_1 = 6, w_2 = 7, w_3 = 8 \<rparr>] @ rest)) \<and>
        fcsv s' = Some (csv_text ([\<lparr> w_0 = 1, w_1 = 2, w_2 = 3, w_3 = 4 \<rparr>,
                                   \<lparr> w_0 = 5, w_1 = 6, w_2 = 7, w_3 = 8 \<rparr>] @ rest)))"
    unfolding acc later_def .
  note all = conjI [OF t(1) [unfolded R_def] conjI [OF top conjI [OF acc conjI [OF dr
               conjI [OF pub conjI [OF used conjI [OF third fin]]]]]]]
  show ?thesis by (rule conjI [OF h]) (intro exI, rule all)
qed




text \<open>
  With the console echo enabled and period \<open>P\<close>, after the writer has read \<open>N\<close>
  frames the console holds exactly the lines of the frames whose position, counted from
  1, is a multiple of \<open>P\<close>, which are \<open>N div P\<close> lines, as long as \<open>N < 2^32\<close>, and for
  every \<open>N\<close> when \<open>P\<close> divides \<open>2^32\<close>, as the default period 1 does.
\<close>

theorem console_sampling:
  assumes "host_ok e" and "read_print_enable e False"
  shows "\<exists>s l. run e evs (init_state, empty_log) = Inr (s, l) \<and>
           (length (drained l) < 4294967296 \<or> unat (read_print_every e 1) dvd 4294967296 \<longrightarrow>
              stderr_out s =
                concat (map (console_line \<circ> decode_to_fields)
                          (every_nth (unat (read_print_every e 1)) (drained l))) \<and>
              line_count (stderr_out s) = length (drained l) div unat (read_print_every e 1))"
proof -
  from run_good [OF assms(1), of "(init_state, empty_log)" evs] obtain c where
    c: "run e evs (init_state, empty_log) = Inr c"
       "c = (init_state, empty_log) \<or> session_inv e c" by blast
  show ?thesis
  proof (cases "c = (init_state, empty_log)")
    case True
    then show ?thesis using c(1) by (simp add: init_state_def empty_log_def)
  next
    case False
    then have inv: "session_inv e c" using c(2) by simp
    note pe = session_inv_sinks(4) [OF inv]
      and pv = session_inv_sinks(5) [OF inv]
      and er = session_inv_sinks(6) [OF inv]
    have out: "stderr_out (fst c) = console_text (read_print_every e 1) 0 (drained (snd c))"
      using er pe pv assms(2) by simp
    have nz: "read_print_every e 1 \<noteq> 0" by (rule read_print_every_nonzero)
    have "stderr_out (fst c) =
                concat (map (console_line \<circ> decode_to_fields)
                          (every_nth (unat (read_print_every e 1)) (drained (snd c)))) \<and>
          line_count (stderr_out (fst c)) = length (drained (snd c)) div unat (read_print_every e 1)"
      if "length (drained (snd c)) < 4294967296 \<or> unat (read_print_every e 1) dvd 4294967296"
      using console_text_sampled [OF nz that] by (simp add: out)
    then show ?thesis using c(1) by (cases c) auto
  qed
qed

theorem console_sampling_example:
  "host_ok print3_env \<and> read_print_enable print3_env False \<and>
   unat (read_print_every print3_env 1) = 3 \<and>
   (\<exists>s l. run print3_env
             [Push 0 4 1 2 3 4, Push 0 4 5 6 7 8, Push 0 4 9 10 11 12,
              Writer 0, Writer 0, Writer 0, Writer 0]
             (init_state, empty_log) = Inr (s, l) \<and>
      length (drained l) = 3 \<and>
      stderr_out s =
        concat (map (console_line \<circ> decode_to_fields) (every_nth 3 (drained l))) \<and>
      line_count (stderr_out s) = length (drained l) div 3)"
proof -
  have h: "host_ok print3_env" by (simp add: host_ok_def print3_env_def)
  have p: "read_print_enable print3_env False"
    by (simp add: read_print_enable_def print3_env_def)
  have v: "read_print_every print3_env 1 = 3"
    by (simp add: read_print_every_def print3_env_def)
  define R where
    "R = run print3_env
           [Push 0 4 1 2 3 4, Push 0 4 5 6 7 8, Push 0 4 9 10 11 12,
            Writer 0, Writer 0, Writer 0, Writer 0]
           (init_state, empty_log)"
  have "\<exists>s l. R = Inr (s, l) \<and> length (drained l) = 3"
    unfolding R_def by (simp add: eval_defs print3_env_def)
  then obtain s0 l0 where e: "R = Inr (s0, l0)" "length (drained l0) = 3"
    by blast
  from console_sampling [OF h p, of "[Push 0 4 1 2 3 4, Push 0 4 5 6 7 8, Push 0 4 9 10 11 12,
              Writer 0, Writer 0, Writer 0, Writer 0]", folded R_def]
  obtain s l where
    t: "R = Inr (s, l)"
       "length (drained l) < 4294967296 \<or>
        unat (read_print_every print3_env 1) dvd 4294967296 \<longrightarrow>
          stderr_out s =
            concat (map (console_line \<circ> decode_to_fields)
                      (every_nth (unat (read_print_every print3_env 1)) (drained l))) \<and>
          line_count (stderr_out s) =
            length (drained l) div unat (read_print_every print3_env 1)"
    by blast
  have eq: "l0 = l" using e(1) t(1) by simp
  then have len: "length (drained l) = 3" using e(2) by simp
  then have lt: "length (drained l) < 4294967296" by simp
  have v': "unat (read_print_every print3_env 1) = 3" by (simp add: v)
  from lt have
    "stderr_out s = concat (map (console_line \<circ> decode_to_fields) (every_nth 3 (drained l))) \<and>
     line_count (stderr_out s) = length (drained l) div 3"
    using t(2) [unfolded v'] by blast
  then show ?thesis using h p v' t(1) len unfolding R_def by blast
qed

text \<open>
  At the frame number \<open>2^32\<close> the counter wraps to 0, and 0 is divisible by every
  period: with period 3 this frame is printed although \<open>2^32\<close> is not a multiple
  of 3.
\<close>

lemma console_wraps:
  assumes len: "length fs = 4294967296"
  shows "line_count (console_text 3 0 fs) = 1431655766"
proof -
  from len have "fs \<noteq> []" by auto
  then obtain gs g where fs: "fs = gs @ [g]" by (metis rev_exhaust)
  then have lg: "length gs = 4294967295" using len by simp
  have "line_count (console_text 3 0 gs) = (unat (0 :: u32) + length gs) div unat (3 :: u32) - unat (0 :: u32) div unat (3 :: u32)"
    by (rule console_text_count) (simp_all add: lg)
  then have a: "line_count (console_text 3 0 gs) = 1431655765" by (simp add: lg)
  have b: "((0 :: u32) + of_nat (length gs) + 1) mod 3 = 0" by (simp add: lg)
  show ?thesis
    unfolding fs console_text_snoc using a b by (simp add: line_count_console_line)
qed

text \<open>Rounds of one push and one pass with the echo enabled and period 3.\<close>

lemma print3_rounds:
  assumes "0 < k"
  shows "\<exists>c. run print3_env (concat (replicate k push_drain_round)) (init_state, empty_log) =
               Inr c \<and>
             length (drained (snd c)) = k \<and>
             stderr_out (fst c) = console_text 3 0 (drained (snd c))"
proof -
  have h: "host_ok print3_env" by (simp add: host_ok_def print3_env_def)
  have p: "read_print_enable print3_env False"
    by (simp add: read_print_enable_def print3_env_def)
  have v: "read_print_every print3_env 1 = 3"
    by (simp add: read_print_every_def print3_env_def)
  from rounds [OF h, of "(init_state, empty_log)" k] obtain c where
    r: "run print3_env (concat (replicate k push_drain_round)) (init_state, empty_log) = Inr c"
    and g: "c = (init_state, empty_log) \<or>
                 session_inv print3_env c \<and> writers (fst c) = [Top] \<and>
                 drained (snd c) = accepted (snd c)"
    and n: "length (drained (snd c)) = length (drained (snd (init_state, empty_log))) + k"
    by blast
  have len: "length (drained (snd c)) = k" using n by (simp add: empty_log_def)
  then have "c \<noteq> (init_state, empty_log)" using assms by (auto simp add: empty_log_def)
  then have inv: "session_inv print3_env c" using g by simp
  note pe = session_inv_sinks(4) [OF inv]
    and pv = session_inv_sinks(5) [OF inv]
    and er = session_inv_sinks(6) [OF inv]
  have "stderr_out (fst c) = console_text 3 0 (drained (snd c))"
    using er pe pv p v by simp
  then show ?thesis using r len by blast
qed

lemma print3_lines:
  assumes "0 < k" and "k < 4294967296"
  shows "map_sum id (length \<circ> drained \<circ> snd)
           (run print3_env (concat (replicate k push_drain_round)) (init_state, empty_log)) =
           Inr k"
    and "map_sum id (line_count \<circ> stderr_out \<circ> fst)
           (run print3_env (concat (replicate k push_drain_round)) (init_state, empty_log)) =
           Inr (k div 3)"
proof -
  from print3_rounds [OF assms(1)] obtain c where
    c: "run print3_env (concat (replicate k push_drain_round)) (init_state, empty_log) = Inr c"
       "length (drained (snd c)) = k"
       "stderr_out (fst c) = console_text 3 0 (drained (snd c))"
    by blast
  have "line_count (console_text 3 0 (drained (snd c))) =
          length (drained (snd c)) div unat (3 :: u32)"
    by (rule console_text_sampled(2)) (simp_all add: c(2) assms(2))
  then have "line_count (stderr_out (fst c)) = k div 3" using c(2,3) by simp
  then show "map_sum id (line_count \<circ> stderr_out \<circ> fst)
           (run print3_env (concat (replicate k push_drain_round)) (init_state, empty_log)) =
           Inr (k div 3)" using c(1) by simp
  show "map_sum id (length \<circ> drained \<circ> snd)
           (run print3_env (concat (replicate k push_drain_round)) (init_state, empty_log)) =
           Inr k" using c(1,2) by simp
qed

text \<open>
  C7. The sample counter \<open>print_count\<close> is a 32-bit \<open>unsigned\<close>, and the code prints a
  line when the incremented counter is divisible by the period. With \<open>SNIFFER_PRINT=1\<close>
  and \<open>SNIFFER_PRINT_EVERY=3\<close>, after \<open>2^32 - 2\<close>, \<open>2^32 - 1\<close> and \<open>2^32\<close> rounds of one
  push and one pass the writer has read that many frames and the console holds
  1431655764, 1431655765 and 1431655766 lines: the frame \<open>2^32 - 1\<close>, a multiple of 3, is
  echoed, and so is the next frame \<open>2^32\<close>, which is not a multiple of 3, because the
  counter has wrapped to 0. The console then holds one line more than
  \<open>2^32 div 3 = 1431655765\<close>, and two frames in a row have been echoed although one in
  three is asked for.
\<close>

theorem console_sampling_overflow:
  "read_print_enable print3_env False \<and>
   unat (read_print_every print3_env 1) = 3 \<and>
   map_sum id (length \<circ> drained \<circ> snd)
     (run print3_env (concat (replicate 4294967294 push_drain_round)) (init_state, empty_log))
     = Inr 4294967294 \<and>
   map_sum id (line_count \<circ> stderr_out \<circ> fst)
     (run print3_env (concat (replicate 4294967294 push_drain_round)) (init_state, empty_log))
     = Inr 1431655764 \<and>
   map_sum id (length \<circ> drained \<circ> snd)
     (run print3_env (concat (replicate 4294967295 push_drain_round)) (init_state, empty_log))
     = Inr 4294967295 \<and>
   map_sum id (line_count \<circ> stderr_out \<circ> fst)
     (run print3_env (concat (replicate 4294967295 push_drain_round)) (init_state, empty_log))
     = Inr 1431655765 \<and>
   map_sum id (length \<circ> drained \<circ> snd)
     (run print3_env (concat (replicate 4294967296 push_drain_round)) (init_state, empty_log))
     = Inr 4294967296 \<and>
   map_sum id (line_count \<circ> stderr_out \<circ> fst)
     (run print3_env (concat (replicate 4294967296 push_drain_round)) (init_state, empty_log))
     = Inr 1431655766 \<and>
   (4294967296 :: nat) div 3 = 1431655765 \<and>
   \<not> (3 :: nat) dvd 4294967296"
proof -
  have p: "read_print_enable print3_env False"
    by (simp add: read_print_enable_def print3_env_def)
  have v: "unat (read_print_every print3_env 1) = 3"
    by (simp add: read_print_every_def print3_env_def)
  have a: "map_sum id (length \<circ> drained \<circ> snd)
     (run print3_env (concat (replicate 4294967294 push_drain_round)) (init_state, empty_log))
     = Inr 4294967294"
    by (rule print3_lines(1)) simp_all
  have "map_sum id (line_count \<circ> stderr_out \<circ> fst)
     (run print3_env (concat (replicate 4294967294 push_drain_round)) (init_state, empty_log))
     = Inr (4294967294 div 3)"
    by (rule print3_lines(2)) simp_all
  then have a': "map_sum id (line_count \<circ> stderr_out \<circ> fst)
     (run print3_env (concat (replicate 4294967294 push_drain_round)) (init_state, empty_log))
     = Inr 1431655764"
    by simp
  have b: "map_sum id (length \<circ> drained \<circ> snd)
     (run print3_env (concat (replicate 4294967295 push_drain_round)) (init_state, empty_log))
     = Inr 4294967295"
    by (rule print3_lines(1)) simp_all
  have "map_sum id (line_count \<circ> stderr_out \<circ> fst)
     (run print3_env (concat (replicate 4294967295 push_drain_round)) (init_state, empty_log))
     = Inr (4294967295 div 3)"
    by (rule print3_lines(2)) simp_all
  then have b': "map_sum id (line_count \<circ> stderr_out \<circ> fst)
     (run print3_env (concat (replicate 4294967295 push_drain_round)) (init_state, empty_log))
     = Inr 1431655765"
    by simp
  from print3_rounds [of 4294967296] obtain c where
    c: "run print3_env (concat (replicate 4294967296 push_drain_round))
          (init_state, empty_log) = Inr c"
       "length (drained (snd c)) = 4294967296"
       "stderr_out (fst c) = console_text 3 0 (drained (snd c))"
    by auto
  have "line_count (stderr_out (fst c)) = 1431655766"
    using console_wraps [OF c(2)] c(3) by simp
  then have d: "map_sum id (length \<circ> drained \<circ> snd)
     (run print3_env (concat (replicate 4294967296 push_drain_round)) (init_state, empty_log))
     = Inr 4294967296"
    and d': "map_sum id (line_count \<circ> stderr_out \<circ> fst)
     (run print3_env (concat (replicate 4294967296 push_drain_round)) (init_state, empty_log))
     = Inr 1431655766"
    using c(1,2) by simp_all
  have n: "(4294967296 :: nat) div 3 = 1431655765" by simp
  have m: "\<not> (3 :: nat) dvd 4294967296" by simp
  note all = conjI [OF p conjI [OF v conjI [OF a conjI [OF a' conjI [OF b conjI [OF b'
               conjI [OF d conjI [OF d' conjI [OF n m]]]]]]]]]
  show ?thesis by (rule all)
qed

end
